theory Spec2Isabelle
  imports Main
begin

section \<open>Python strings and integers\<close>

text \<open>
  The program is \<^verbatim>\<open>tools/session-helper/srt_translator.py\<close>. A Python \<^verbatim>\<open>str\<close> is a
  sequence of Unicode code points, so a string is modelled as a list of code points
  (natural numbers); \<open>of_ascii\<close> embeds an ASCII literal. Python integers are unbounded
  and are modelled by \<open>int\<close>; lists are unbounded as well (CPython's memory limit is not
  modelled). CPython refuses to convert between \<^verbatim>\<open>str\<close> and \<^verbatim>\<open>int\<close> when the number has
  more than 4300 digits (the default of \<^verbatim>\<open>sys.get_int_max_str_digits()\<close>, which the
  program does not change) and raises \<^verbatim>\<open>ValueError\<close>: \<open>py_int\<close> models it for \<^verbatim>\<open>int(s)\<close>,
  and \<open>str_digits_ok\<close> says which integers \<^verbatim>\<open>str\<close> and the formats convert.
\<close>

type_synonym ustr = "nat list"

definition of_ascii :: "string \<Rightarrow> ustr" where
  "of_ascii s = map of_char s"

datatype error = ValueError | IndexError

text \<open>
  \<^verbatim>\<open>str.isspace\<close>, which is also the class \<^verbatim>\<open>\s\<close> of \<^verbatim>\<open>re\<close> on \<^verbatim>\<open>str\<close> patterns and the set
  removed by \<^verbatim>\<open>str.strip()\<close>: U+0009..U+000D, U+001C..U+0020, U+0085, U+00A0, U+1680,
  U+2000..U+200A, U+2028, U+2029, U+202F, U+205F, U+3000.
\<close>

definition is_space :: "nat \<Rightarrow> bool" where
  "is_space c \<longleftrightarrow>
     (9 \<le> c \<and> c \<le> 13) \<or> (28 \<le> c \<and> c \<le> 32) \<or> c = 133 \<or> c = 160 \<or> c = 5760 \<or>
     (8192 \<le> c \<and> c \<le> 8202) \<or> c = 8232 \<or> c = 8233 \<or> c = 8239 \<or> c = 8287 \<or> c = 12288"

text \<open>
  The decimal digits (\<^verbatim>\<open>str.isdecimal\<close>, the class \<^verbatim>\<open>\d\<close> of \<^verbatim>\<open>re\<close> on \<^verbatim>\<open>str\<close> patterns, and
  the digits \<^verbatim>\<open>int()\<close> accepts): in Unicode they come in runs of ten consecutive code
  points with the values 0 to 9. \<open>decimal_zeros\<close> lists the first code point of every run
  (Unicode 14, as in CPython 3.11); the first entry is the ASCII digit \<^verbatim>\<open>0\<close>.
\<close>

definition decimal_zeros :: "nat list" where
  "decimal_zeros =
     [48, 1632, 1776, 1984, 2406, 2534, 2662, 2790, 2918, 3046, 3174, 3302, 3430, 3558,
      3664, 3792, 3872, 4160, 4240, 6112, 6160, 6470, 6608, 6784, 6800, 6992, 7088, 7232,
      7248, 42528, 43216, 43264, 43472, 43504, 43600, 44016, 65296, 66720, 68912, 69734,
      69872, 69942, 70096, 70384, 70736, 70864, 71248, 71360, 71472, 71904, 72016, 72784,
      73040, 73120, 92768, 92864, 93008, 120782, 120792, 120802, 120812, 120822, 123200,
      123632, 125264, 130032]"

definition digit_val :: "nat \<Rightarrow> nat option" where
  "digit_val c = map_option (\<lambda>z. c - z) (find (\<lambda>z. z \<le> c \<and> c < z + 10) decimal_zeros)"

definition is_digit :: "nat \<Rightarrow> bool" where
  "is_digit c \<longleftrightarrow> digit_val c \<noteq> None"

text \<open>\<^verbatim>\<open>s.startswith(p)\<close>, \<^verbatim>\<open>s.endswith(p)\<close> and \<^verbatim>\<open>s.strip()\<close>.\<close>

definition startswith :: "ustr \<Rightarrow> ustr \<Rightarrow> bool" where
  "startswith s p \<longleftrightarrow> take (length p) s = p"

definition endswith :: "ustr \<Rightarrow> ustr \<Rightarrow> bool" where
  "endswith s p \<longleftrightarrow> length p \<le> length s \<and> drop (length s - length p) s = p"

definition strip :: "ustr \<Rightarrow> ustr" where
  "strip s = rev (dropWhile is_space (rev (dropWhile is_space s)))"

text \<open>
  \<^verbatim>\<open>s.replace(old, new)\<close>: every occurrence of \<open>old\<close>, leftmost first and without overlap.
\<close>

function replace :: "ustr \<Rightarrow> ustr \<Rightarrow> ustr \<Rightarrow> ustr" where
  "replace old new s =
     (if old = [] then new @ concat (map (\<lambda>c. c # new) s)
      else if s = [] then []
      else if startswith s old then new @ replace old new (drop (length old) s)
      else hd s # replace old new (tl s))"
  by pat_completeness auto
termination
  by (relation "measure (\<lambda>(old, new, s). length s)") auto

declare replace.simps [simp del]

text \<open>
  \<^verbatim>\<open>s.split(sep)\<close> for a separator of one character (\<open>cur\<close> is the piece being read), and
  \<^verbatim>\<open>sep.join(parts)\<close>.
\<close>

fun split_from :: "nat \<Rightarrow> ustr \<Rightarrow> ustr \<Rightarrow> ustr list" where
  "split_from sep cur [] = [cur]"
| "split_from sep cur (c # cs) =
     (if c = sep then cur # split_from sep [] cs else split_from sep (cur @ [c]) cs)"

definition split :: "nat \<Rightarrow> ustr \<Rightarrow> ustr list" where
  "split sep s = split_from sep [] s"

fun join :: "ustr \<Rightarrow> ustr list \<Rightarrow> ustr" where
  "join sep [] = []"
| "join sep [p] = p"
| "join sep (p # q # ps) = p @ sep @ join sep (q # ps)"

text \<open>
  \<^verbatim>\<open>int(s)\<close> in base ten. Around the number \<^verbatim>\<open>int\<close> skips white space, but not the four
  separators U+001C..U+001F that \<^verbatim>\<open>strip()\<close> removes; then come an optional sign and
  decimal digits, where single underscores may stand between digits. A number of more
  than \<open>MAX_STR_DIGITS\<close> digits (leading zeros counted, underscores not) is refused.
  \<open>None\<close> is the \<^verbatim>\<open>ValueError\<close>.
\<close>

definition int_space :: "nat \<Rightarrow> bool" where
  "int_space c \<longleftrightarrow> is_space c \<and> \<not> (28 \<le> c \<and> c \<le> 31)"

fun int_digits :: "nat \<Rightarrow> ustr \<Rightarrow> nat option" where
  "int_digits acc [] = Some acc"
| "int_digits acc (c # cs) =
     (case digit_val c of
        Some d \<Rightarrow> int_digits (acc * 10 + d) cs
      | None \<Rightarrow>
          (if c = 95 then
             (case cs of
                [] \<Rightarrow> None
              | c' # cs' \<Rightarrow>
                  (case digit_val c' of
                     Some d \<Rightarrow> int_digits (acc * 10 + d) cs'
                   | None \<Rightarrow> None))
           else None))"

definition MAX_STR_DIGITS :: nat where
  "MAX_STR_DIGITS = 4300"

definition py_int :: "ustr \<Rightarrow> int option" where
  "py_int s =
     (let t = rev (dropWhile int_space (rev (dropWhile int_space s)));
          neg = (t \<noteq> [] \<and> hd t = 45);
          u = (if t \<noteq> [] \<and> (hd t = 45 \<or> hd t = 43) then tl t else t)
      in if MAX_STR_DIGITS < length (filter is_digit u) then None
         else
           (case u of
              [] \<Rightarrow> None
            | c # cs \<Rightarrow>
                (case digit_val c of
                   None \<Rightarrow> None
                 | Some d \<Rightarrow> map_option (\<lambda>n. if neg then - int n else int n) (int_digits d cs))))"

text \<open>
  \<^verbatim>\<open>str(n)\<close> and the format \<^verbatim>\<open>f"{n:0wd}"\<close> (zero padding to the width \<open>w\<close>, sign included),
  for the integers they convert: those of at most \<open>MAX_STR_DIGITS\<close> digits
  (\<open>str_digits_ok\<close>); for the others both raise \<^verbatim>\<open>ValueError\<close>.
\<close>

fun digits :: "nat \<Rightarrow> ustr" where
  "digits n = (if n < 10 then [48 + n] else digits (n div 10) @ [48 + n mod 10])"

declare digits.simps [simp del]

definition py_str :: "int \<Rightarrow> ustr" where
  "py_str n = (if n < 0 then 45 # digits (nat (- n)) else digits (nat n))"

definition str_digits_ok :: "int \<Rightarrow> bool" where
  "str_digits_ok n \<longleftrightarrow> length (digits (nat \<bar>n\<bar>)) \<le> MAX_STR_DIGITS"

definition zfill :: "nat \<Rightarrow> ustr \<Rightarrow> ustr" where
  "zfill w s = replicate (w - length s) 48 @ s"

definition fmt_0d :: "nat \<Rightarrow> int \<Rightarrow> ustr" where
  "fmt_0d w n = (if n < 0 then 45 # zfill (w - 1) (digits (nat (- n))) else zfill w (digits (nat n)))"

section \<open>The subtitle codec\<close>

subsection \<open>Timestamps\<close>

text \<open>
  \<^verbatim>\<open>re.match(r"(\d{2}):(\d{2}):(\d{2}),(\d{3})", s)\<close>: the pattern is anchored at the start
  only, so the twelve characters may be followed by anything. The result is the four
  groups.
\<close>

definition match_timestamp :: "ustr \<Rightarrow> (ustr \<times> ustr \<times> ustr \<times> ustr) option" where
  "match_timestamp s =
     (let h = take 2 s; m = take 2 (drop 3 s); sec = take 2 (drop 6 s); f = take 3 (drop 9 s)
      in if 12 \<le> length s \<and> list_all is_digit (h @ m @ sec @ f) \<and>
            s ! 2 = 58 \<and> s ! 5 = 58 \<and> s ! 8 = 44
         then Some (h, m, sec, f) else None)"

definition parse_timestamp :: "ustr \<Rightarrow> error + int" where
  "parse_timestamp timestamp =
     (case match_timestamp (strip (replace [46] [44] timestamp)) of
        None \<Rightarrow> Inl ValueError
      | Some (h, m, s, f) \<Rightarrow>
          (case (py_int h, py_int m, py_int s, py_int f) of
             (Some hours, Some minutes, Some seconds, Some millis) \<Rightarrow>
               Inr ((hours * 3600 + minutes * 60 + seconds) * 1000 + millis)
           | _ \<Rightarrow> Inl ValueError))"

definition format_timestamp :: "int \<Rightarrow> ustr" where
  "format_timestamp ms =
     (let total_seconds = ms div 1000;
          millis = ms mod 1000;
          hours = total_seconds div 3600;
          minutes = (total_seconds mod 3600) div 60;
          seconds = total_seconds mod 60
      in fmt_0d 2 hours @ [58] @ fmt_0d 2 minutes @ [58] @ fmt_0d 2 seconds @ [44] @
         fmt_0d 3 millis)"

text \<open>
  The timestamp \<^verbatim>\<open>HH:MM:SS,mmm\<close> written with ASCII digits: two digits for each of \<open>H\<close>,
  \<open>M\<close> and \<open>S\<close>, the separator \<open>sep\<close> (a comma, 44, or a period, 46) and three digits
  for the milliseconds \<open>F\<close>. The claims about timestamps are stated with it.
\<close>

definition hms_string :: "nat \<Rightarrow> nat \<Rightarrow> nat \<Rightarrow> nat \<Rightarrow> nat \<Rightarrow> ustr" where
  "hms_string H M S sep F =
     [48 + H div 10, 48 + H mod 10, 58, 48 + M div 10, 48 + M mod 10, 58,
      48 + S div 10, 48 + S mod 10, sep, 48 + F div 100, 48 + F div 10 mod 10, 48 + F mod 10]"

section \<open>Data classes\<close>

text \<open>
  The data classes \<^verbatim>\<open>Cue\<close> and \<^verbatim>\<open>TranslationBatch\<close>. The lists of a batch hold
  references to cue objects; the batch record is polymorphic in what stands for a cue, so
  that the planner can be run on cue values and on references into a store of cues.
\<close>

record Cue =
  index :: int
  start_time :: int
  end_time :: int
  "text" :: ustr
  translated_text :: "ustr option"

record 'a TranslationBatch =
  cues :: "'a list"
  prev_context :: "'a list"
  next_context :: "'a list"
  start_index :: int
  end_index :: int

subsection \<open>Parsing\<close>

text \<open>
  \<^verbatim>\<open>re.split(r"\n\s*\n", s)\<close>. \<open>blank_sep_len s\<close> is the length of the match of
  \<^verbatim>\<open>\n\s*\n\<close> at the start of \<open>s\<close>: after the first line feed the greedy \<^verbatim>\<open>\s*\<close> takes the
  whole run of white space and backtracks to the last line feed in it. The matches are
  found from left to right, each search starting where the last match ended; \<open>cur\<close> is
  the piece being read.
\<close>

definition blank_sep_len :: "ustr \<Rightarrow> nat option" where
  "blank_sep_len s =
     (case s of
        [] \<Rightarrow> None
      | c # r \<Rightarrow>
          if c = 10 then
            (let ws = takeWhile is_space r
             in if 10 \<in> set ws
                then Some (Suc (length ws) - length (takeWhile (\<lambda>x. x \<noteq> 10) (rev ws)))
                else None)
          else None)"

function re_split_from :: "ustr \<Rightarrow> ustr \<Rightarrow> ustr list" where
  "re_split_from cur s =
     (case s of
        [] \<Rightarrow> [cur]
      | c # r \<Rightarrow>
          (case blank_sep_len s of
             Some n \<Rightarrow> cur # re_split_from [] (drop n s)
           | None \<Rightarrow> re_split_from (cur @ [c]) r))"
  by pat_completeness auto
termination
proof (relation "measure (\<lambda>(cur, s). length s)")
  show "wf (measure (\<lambda>(cur, s). length s))"
    by simp
next
  fix cur s :: ustr and c r n
  assume s: "s = c # r" and "blank_sep_len s = Some n"
  then obtain ws :: ustr
    where n: "n = Suc (length ws) - length (takeWhile (\<lambda>x. x \<noteq> 10) (rev ws))"
    by (auto simp: blank_sep_len_def Let_def split: if_splits)
  moreover have "length (takeWhile (\<lambda>x. x \<noteq> 10) (rev ws)) \<le> length (rev ws)"
    by (rule length_takeWhile_le)
  ultimately have "0 < n"
    by simp
  then show "(([], drop n s), (cur, s)) \<in> measure (\<lambda>(cur, s). length s)"
    using s by simp
next
  fix cur s :: ustr and c r
  assume "s = c # r"
  then show "((cur @ [c], r), (cur, s)) \<in> measure (\<lambda>(cur, s). length s)"
    by simp
qed

declare re_split_from.simps [simp del]

definition re_split_blank :: "ustr \<Rightarrow> ustr list" where
  "re_split_blank s = re_split_from [] s"

text \<open>
  \<^verbatim>\<open>re.match(r"(.+?)\s*-->\s*(.+?)(?:\s|$)", s)\<close> for a string \<open>s\<close> without line feed (a
  piece of \<^verbatim>\<open>split("\n")\<close>). The lazy first group is the shortest non-empty prefix after
  which the rest of the pattern matches. The rest matches \<open>r\<close> when \<open>r\<close>, after its leading
  white space, starts with \<^verbatim>\<open>-->\<close> and the second group finds a character: after
  \<^verbatim>\<open>-->\<close> the greedy \<^verbatim>\<open>\s*\<close> takes all white space and the lazy second group runs up to
  the next white space or the end; when only white space is left, \<^verbatim>\<open>\s*\<close> gives back its
  last character to the group.
\<close>

definition timing_group2 :: "ustr \<Rightarrow> ustr option" where
  "timing_group2 t =
     (let u = dropWhile is_space t
      in if u \<noteq> [] then Some (hd u # takeWhile (\<lambda>c. \<not> is_space c) (tl u))
         else if t = [] then None
         else Some [last t])"

definition timing_rest :: "ustr \<Rightarrow> ustr option" where
  "timing_rest r =
     (let u = dropWhile is_space r
      in if startswith u [45, 45, 62] then timing_group2 (drop 3 u) else None)"

fun timing_scan :: "ustr \<Rightarrow> ustr \<Rightarrow> (ustr \<times> ustr) option" where
  "timing_scan g1 [] = None"
| "timing_scan g1 (c # r) =
     (case timing_rest (c # r) of
        Some g2 \<Rightarrow> Some (g1, g2)
      | None \<Rightarrow> timing_scan (g1 @ [c]) r)"

definition match_timing :: "ustr \<Rightarrow> (ustr \<times> ustr) option" where
  "match_timing s = (case s of [] \<Rightarrow> None | c # r \<Rightarrow> timing_scan [c] r)"

text \<open>
  The warnings \<^verbatim>\<open>parse_srt\<close> prints: for a timing line that does not match (with the
  index of the cue), and for an exception caught in a block.
\<close>

datatype warning = BadTimestamp int | MalformedBlock

text \<open>
  The body of the loop over the blocks: \<open>None\<close> when the block is passed over without a
  word (\<^verbatim>\<open>continue\<close>), a warning when it is skipped with \<^verbatim>\<open>print_warning\<close>, or the cue.
  \<^verbatim>\<open>ValueError\<close> and \<^verbatim>\<open>IndexError\<close> are caught inside the loop.
\<close>

definition parse_block :: "ustr \<Rightarrow> (warning + Cue) option" where
  "parse_block block =
     (if strip block = [] then None
      else
        (let lines = split 10 (strip block)
         in if length lines < 3 then None
            else
              (case py_int (strip (lines ! 0)) of
                 None \<Rightarrow> Some (Inl MalformedBlock)
               | Some idx \<Rightarrow>
                   (case match_timing (strip (lines ! 1)) of
                      None \<Rightarrow> Some (Inl (BadTimestamp idx))
                    | Some (g1, g2) \<Rightarrow>
                        (case parse_timestamp g1 of
                           Inl e \<Rightarrow> Some (Inl MalformedBlock)
                         | Inr start \<Rightarrow>
                             (case parse_timestamp g2 of
                                Inl e \<Rightarrow> Some (Inl MalformedBlock)
                              | Inr stop \<Rightarrow>
                                  Some (Inr \<lparr>index = idx, start_time = start, end_time = stop,
                                             text = strip (join [10] (drop 2 lines)),
                                             translated_text = None\<rparr>)))))))"

fun parse_blocks :: "ustr list \<Rightarrow> Cue list \<Rightarrow> warning list \<Rightarrow> Cue list \<times> warning list" where
  "parse_blocks [] cs ws = (cs, ws)"
| "parse_blocks (block # rest) cs ws =
     (case parse_block block of
        None \<Rightarrow> parse_blocks rest cs ws
      | Some (Inl w) \<Rightarrow> parse_blocks rest cs (ws @ [w])
      | Some (Inr cue) \<Rightarrow> parse_blocks rest (cs @ [cue]) ws)"

text \<open>
  The blocks of a document: line endings normalised, a leading byte order mark (U+FEFF,
  65279) removed, the content stripped and split at blank lines.
\<close>

definition srt_blocks :: "ustr \<Rightarrow> ustr list" where
  "srt_blocks content =
     (let c1 = replace [13] [10] (replace [13, 10] [10] content);
          c2 = (if startswith c1 [65279] then drop 1 c1 else c1)
      in re_split_blank (strip c2))"

text \<open>\<^verbatim>\<open>parse_srt\<close>, with the warnings it prints and without them.\<close>

definition parse_srt_log :: "ustr \<Rightarrow> Cue list \<times> warning list" where
  "parse_srt_log content = parse_blocks (srt_blocks content) [] []"

definition parse_srt :: "ustr \<Rightarrow> Cue list" where
  "parse_srt content = fst (parse_srt_log content)"

subsection \<open>Serialising\<close>

text \<open>
  The lines \<^verbatim>\<open>generate_srt\<close> collects for the cues, numbered from \<open>i\<close> on
  (\<^verbatim>\<open>enumerate(cues, 1)\<close>), and the document: the lines joined with \<^verbatim>\<open>\r\n\<close> after a byte
  order mark.
\<close>

fun srt_lines :: "nat \<Rightarrow> Cue list \<Rightarrow> bool \<Rightarrow> ustr list" where
  "srt_lines i [] use_translated = []"
| "srt_lines i (cue # rest) use_translated =
     [py_str (int i),
      format_timestamp (start_time cue) @ [32, 45, 45, 62, 32] @ format_timestamp (end_time cue),
      (case translated_text cue of
         Some t \<Rightarrow> if use_translated \<and> t \<noteq> [] then t else text cue
       | None \<Rightarrow> text cue),
      []] @ srt_lines (Suc i) rest use_translated"

definition generate_srt :: "Cue list \<Rightarrow> bool \<Rightarrow> ustr" where
  "generate_srt cue_list use_translated = 65279 # join [13, 10] (srt_lines 1 cue_list use_translated)"



section \<open>Context-aware batching\<close>

text \<open>
  The slice \<^verbatim>\<open>xs[a:b]\<close>: a negative bound counts from the end, and both bounds are
  clamped to the list.
\<close>

definition py_slice :: "'a list \<Rightarrow> int \<Rightarrow> int \<Rightarrow> 'a list" where
  "py_slice xs a b =
     (let n = int (length xs);
          lo = (if a < 0 then max 0 (a + n) else min a n);
          hi = (if b < 0 then max 0 (b + n) else min b n)
      in take (nat (hi - lo)) (drop (nat lo) xs))"

text \<open>
  The loop \<^verbatim>\<open>for i in range(0, len(cues), batch_size)\<close> of \<^verbatim>\<open>create_batches\<close>, from the
  position \<open>i\<close> on. A negative step gives an empty range; the step 0 is refused by
  \<^verbatim>\<open>range\<close> with a \<^verbatim>\<open>ValueError\<close> before the loop starts.
\<close>

function batches_from :: "'a list \<Rightarrow> int \<Rightarrow> int \<Rightarrow> int \<Rightarrow> 'a TranslationBatch list" where
  "batches_from cue_list batch_size context_size i =
     (if 0 < batch_size \<and> i < int (length cue_list) then
        (let batch_cues = py_slice cue_list i (i + batch_size);
             prev_start = max 0 (i - context_size);
             prev = py_slice cue_list prev_start i;
             next_end = min (int (length cue_list)) (i + batch_size + context_size);
             nxt = py_slice cue_list (i + batch_size) next_end
         in \<lparr>cues = batch_cues, prev_context = prev, next_context = nxt,
              start_index = i, end_index = i + int (length batch_cues) - 1\<rparr>
            # batches_from cue_list batch_size context_size (i + batch_size))
      else [])"
  by pat_completeness auto
termination
  by (relation "measure (\<lambda>(cue_list, batch_size, context_size, i). nat (int (length cue_list) - i))") auto

declare batches_from.simps [simp del]

definition create_batches :: "'a list \<Rightarrow> int \<Rightarrow> int \<Rightarrow> error + 'a TranslationBatch list" where
  "create_batches cue_list batch_size context_size =
     (if batch_size = 0 then Inl ValueError
      else Inr (batches_from cue_list batch_size context_size 0))"

section \<open>The response parser\<close>

text \<open>
  \<^verbatim>\<open>re.match(r"^\s*(\d+)\s*[.:\)]\s*(.+)$", s)\<close> for a string \<open>s\<close> without line feed (the
  parser applies it to the pieces of \<^verbatim>\<open>split("\n")\<close>, where \<^verbatim>\<open>.\<close> matches every
  character and \<^verbatim>\<open>$\<close> only the end). The classes \<^verbatim>\<open>\s\<close>, \<^verbatim>\<open>\d\<close> and \<^verbatim>\<open>[.:\)]\<close> are
  disjoint, so the greedy runs are forced up to the separator. After it \<^verbatim>\<open>\s*\<close> takes
  all white space; when nothing is left for \<^verbatim>\<open>(.+)\<close> the engine backtracks by one
  character, so the group is the last white-space character. The result is the two
  groups.
\<close>

definition match_numbered :: "ustr \<Rightarrow> (ustr \<times> ustr) option" where
  "match_numbered s =
     (let u = dropWhile is_space s;
          d = takeWhile is_digit u;
          v = dropWhile is_space (dropWhile is_digit u)
      in if d = [] then None
         else (case v of
                 [] \<Rightarrow> None
               | c # w \<Rightarrow>
                   if c = 46 \<or> c = 58 \<or> c = 41 then
                     (let x = dropWhile is_space w
                      in if x \<noteq> [] then Some (d, x)
                         else if w = [] then None
                         else Some (d, [last w]))
                   else None))"

text \<open>
  Removing the surrounding quotes: \<^verbatim>\<open>text[1:-1]\<close> when the text starts and ends with
  \<^verbatim>\<open>"\<close> (34), or starts and ends with \<^verbatim>\<open>'\<close> (39).
\<close>

definition unquote :: "ustr \<Rightarrow> ustr" where
  "unquote t =
     (if (startswith t [34] \<and> endswith t [34]) \<or> (startswith t [39] \<and> endswith t [39])
      then py_slice t 1 (- 1) else t)"

text \<open>
  What the loop body computes from one line: nothing when the line does not match,
  otherwise the number and the text (\<^verbatim>\<open>int\<close> could raise \<^verbatim>\<open>ValueError\<close>).
\<close>

definition line_entry :: "ustr \<Rightarrow> (error + int \<times> ustr) option" where
  "line_entry line =
     (case match_numbered (strip line) of
        None \<Rightarrow> None
      | Some (g1, g2) \<Rightarrow>
          (case py_int g1 of
             None \<Rightarrow> Some (Inl ValueError)
           | Some num \<Rightarrow> Some (Inr (num, unquote (strip g2)))))"

text \<open>
  The loops \<^verbatim>\<open>while len(translations) < n: translations.append("")\<close>, and the assignment
  \<^verbatim>\<open>xs[i] = v\<close>, which counts a negative index from the end and raises \<^verbatim>\<open>IndexError\<close>
  outside the list.
\<close>

function pad_placeholders :: "ustr list \<Rightarrow> int \<Rightarrow> ustr list" where
  "pad_placeholders translations n =
     (if int (length translations) < n then pad_placeholders (translations @ [[]]) n
      else translations)"
  by pat_completeness auto
termination
  by (relation "measure (\<lambda>(translations, n). nat (n - int (length translations)))") auto

declare pad_placeholders.simps [simp del]

definition py_setitem :: "'a list \<Rightarrow> int \<Rightarrow> 'a \<Rightarrow> error + 'a list" where
  "py_setitem xs i v =
     (let n = int (length xs); j = (if i < 0 then i + n else i)
      in if 0 \<le> j \<and> j < n then Inr (xs[nat j := v]) else Inl IndexError)"

definition store_translation :: "ustr list \<Rightarrow> int \<Rightarrow> ustr \<Rightarrow> error + ustr list" where
  "store_translation translations num t =
     (let ts = pad_placeholders translations (num - 1)
      in if int (length ts) < num then Inr (ts @ [t]) else py_setitem ts (num - 1) t)"

fun parse_lines :: "ustr list \<Rightarrow> ustr list \<Rightarrow> error + ustr list" where
  "parse_lines [] translations = Inr translations"
| "parse_lines (line # rest) translations =
     (case line_entry line of
        None \<Rightarrow> parse_lines rest translations
      | Some (Inl e) \<Rightarrow> Inl e
      | Some (Inr (num, t)) \<Rightarrow>
          (case store_translation translations num t of
             Inl e \<Rightarrow> Inl e
           | Inr translations' \<Rightarrow> parse_lines rest translations'))"

text \<open>
  \<^verbatim>\<open>parse_translation_response\<close>. The warning it prints when the count differs from
  \<open>expected_count\<close> does not change the result and is left out.
\<close>

definition parse_translation_response :: "ustr \<Rightarrow> int \<Rightarrow> error + ustr list" where
  "parse_translation_response response expected_count =
     (case parse_lines (split 10 (strip response)) [] of
        Inl e \<Rightarrow> Inl e
      | Inr translations \<Rightarrow>
          Inr (py_slice (pad_placeholders translations expected_count) 0 expected_count))"



definition entries_of :: "ustr list \<Rightarrow> (int \<times> ustr) list" where
  "entries_of ls =
     List.map_filter (\<lambda>line. case line_entry line of Some (Inr e) \<Rightarrow> Some e | _ \<Rightarrow> None) ls"

definition numbered_lines :: "ustr \<Rightarrow> (int \<times> ustr) list" where
  "numbered_lines response = entries_of (split 10 (strip response))"



section \<open>The batch orchestrator\<close>

definition MAX_RETRIES :: nat where
  "MAX_RETRIES = 3"

definition RETRY_BACKOFF :: "int list" where
  "RETRY_BACKOFF = [1, 2, 4]"

definition RATE_LIMIT_DELAY :: int where
  "RATE_LIMIT_DELAY = 0"

text \<open>
  The state of a run. The cue objects live in a store (\<open>heap\<close>, from addresses to cues),
  and the lists \<^verbatim>\<open>cues\<close>, \<^verbatim>\<open>batch.cues\<close> and the context lists hold addresses, so that an
  assignment to \<^verbatim>\<open>batch.cues[i].translated_text\<close> is seen through every list that holds
  the cue. \<open>failed_batches\<close> is the counter of that name, \<open>calls\<close> counts the calls of
  \<^verbatim>\<open>translate_with_chatgpt\<close>, and \<open>sleeps\<close> logs the arguments of \<^verbatim>\<open>time.sleep\<close> in
  order.

  The completion provider is outside the program: \<open>provider k\<close> is what call number \<open>k\<close>
  of \<^verbatim>\<open>translate_with_chatgpt\<close> returns, \<open>None\<close> or a text (whatever the prompt was, so
  every behaviour of the service is some \<open>provider\<close>). A response counts as a failure
  when it is \<open>None\<close> or empty (\<^verbatim>\<open>if response:\<close>).
\<close>

record run =
  heap :: "nat \<Rightarrow> Cue"
  failed_batches :: nat
  calls :: nat
  sleeps :: "int list"

definition wait_time :: "nat \<Rightarrow> int" where
  "wait_time attempt = RETRY_BACKOFF ! min (attempt - 1) (length RETRY_BACKOFF - 1)"

definition failed :: "ustr option \<Rightarrow> bool" where
  "failed response = (case response of None \<Rightarrow> True | Some r \<Rightarrow> r = [])"

text \<open>
  The loop \<^verbatim>\<open>for attempt in range(MAX_RETRIES)\<close> of \<^verbatim>\<open>translate_batch_with_retry\<close>, from
  \<open>attempt\<close> on; after the loop the function returns \<^verbatim>\<open>[""] * expected_count\<close>.
\<close>

function retry_loop ::
  "(nat \<Rightarrow> ustr option) \<Rightarrow> nat \<Rightarrow> nat \<Rightarrow> run \<Rightarrow> (error + ustr list) \<times> run" where
  "retry_loop provider expected_count attempt st =
     (if attempt < MAX_RETRIES then
        (let st1 = (if 0 < attempt then st\<lparr>sleeps := sleeps st @ [wait_time attempt]\<rparr> else st);
             response = provider (calls st1);
             st2 = st1\<lparr>calls := Suc (calls st1)\<rparr>
         in case response of
              None \<Rightarrow> retry_loop provider expected_count (Suc attempt) st2
            | Some r \<Rightarrow>
                if r \<noteq> [] then (parse_translation_response r (int expected_count), st2)
                else retry_loop provider expected_count (Suc attempt) st2)
      else (Inr (replicate expected_count []), st))"
  by pat_completeness auto
termination
  by (relation "measure (\<lambda>(provider, expected_count, attempt, st). MAX_RETRIES - attempt)") auto

declare retry_loop.simps [simp del]

definition translate_batch_with_retry ::
  "(nat \<Rightarrow> ustr option) \<Rightarrow> nat TranslationBatch \<Rightarrow> run \<Rightarrow> (error + ustr list) \<times> run" where
  "translate_batch_with_retry provider batch st =
     retry_loop provider (length (cues batch)) 0 st"

text \<open>
  The loop \<^verbatim>\<open>for i, translation in enumerate(translations)\<close> of \<^verbatim>\<open>translate\<close>, from the
  index \<open>i\<close> on; \<^verbatim>\<open>batch.cues[i]\<close> raises \<^verbatim>\<open>IndexError\<close> outside the list.
\<close>

fun apply_translations :: "nat list \<Rightarrow> nat \<Rightarrow> ustr list \<Rightarrow> run \<Rightarrow> error + run" where
  "apply_translations refs i [] st = Inr st"
| "apply_translations refs i (translation # rest) st =
     (if i < length refs then
        (let a = refs ! i; c = heap st a
         in if translation \<noteq> [] then
              apply_translations refs (Suc i) rest
                (st\<lparr>heap := (heap st)(a := c\<lparr>translated_text := Some translation\<rparr>)\<rparr>)
            else
              apply_translations refs (Suc i) rest
                (st\<lparr>heap := (heap st)(a := c\<lparr>translated_text := Some (text c)\<rparr>),
                    failed_batches := Suc (failed_batches st)\<rparr>))
      else Inl IndexError)"

text \<open>
  The loop \<^verbatim>\<open>for batch in progress_batches\<close> of \<^verbatim>\<open>translate\<close>. An exception of the parser
  is not caught and ends the run.
\<close>

fun translate_batches ::
  "(nat \<Rightarrow> ustr option) \<Rightarrow> nat TranslationBatch list \<Rightarrow> run \<Rightarrow> error + run" where
  "translate_batches provider [] st = Inr st"
| "translate_batches provider (batch # rest) st =
     (case translate_batch_with_retry provider batch st of
        (Inl e, st1) \<Rightarrow> Inl e
      | (Inr translations, st1) \<Rightarrow>
          (case apply_translations (cues batch) 0 translations st1 of
             Inl e \<Rightarrow> Inl e
           | Inr st2 \<Rightarrow>
               translate_batches provider rest (st2\<lparr>sleeps := sleeps st2 @ [RATE_LIMIT_DELAY]\<rparr>)))"

text \<open>
  The part of \<^verbatim>\<open>translate\<close> between parsing and writing: the cues are put in the store
  at the addresses \<open>0, 1, \<dots>\<close>, batches are planned over the addresses and translated in
  order; the result is the cues as \<^verbatim>\<open>generate_srt\<close> then reads them.
\<close>

definition translate_cues ::
  "(nat \<Rightarrow> ustr option) \<Rightarrow> Cue list \<Rightarrow> int \<Rightarrow> int \<Rightarrow> error + Cue list \<times> run" where
  "translate_cues provider cue_list batch_size context_size =
     (case create_batches [0..<length cue_list] batch_size context_size of
        Inl e \<Rightarrow> Inl e
      | Inr batches \<Rightarrow>
          (case translate_batches provider batches
                  \<lparr>heap = (\<lambda>a. cue_list ! a), failed_batches = 0, calls = 0, sleeps = []\<rparr> of
             Inl e \<Rightarrow> Inl e
           | Inr st \<Rightarrow> Inr (map (heap st) [0..<length cue_list], st)))"

text \<open>For the statements: the store after every cue of \<open>refs\<close> fell back to its source text.\<close>

definition fallback :: "(nat \<Rightarrow> Cue) \<Rightarrow> nat list \<Rightarrow> nat \<Rightarrow> Cue" where
  "fallback h refs = (\<lambda>a. if a \<in> set refs then (h a)\<lparr>translated_text := Some (text (h a))\<rparr> else h a)"

text \<open>
  For the round trip: a text holds a blank line when \<^verbatim>\<open>\n\s*\n\<close> matches somewhere in it; a
  cue survives the round trip when its times lie in \<open>0 \<le> t < 360000000\<close> (under 100
  hours) and its text is not empty, has no white space at either end, no carriage return
  and no blank line. \<open>renumbered i\<close> is what the round trip gives for such cues: the same
  cues, numbered from \<open>i\<close> and without translation.
\<close>

fun has_blank_line :: "ustr \<Rightarrow> bool" where
  "has_blank_line [] = False"
| "has_blank_line (c # r) = (if blank_sep_len (c # r) = None then has_blank_line r else True)"

definition round_trip_cue :: "Cue \<Rightarrow> bool" where
  "round_trip_cue c \<longleftrightarrow>
     0 \<le> start_time c \<and> start_time c < 360000000 \<and>
     0 \<le> end_time c \<and> end_time c < 360000000 \<and>
     text c \<noteq> [] \<and> strip (text c) = text c \<and> 13 \<notin> set (text c) \<and>
     \<not> has_blank_line (text c)"

fun renumbered :: "nat \<Rightarrow> Cue list \<Rightarrow> Cue list" where
  "renumbered i [] = []"
| "renumbered i (c # cs) = c\<lparr>index := int i, translated_text := None\<rparr> # renumbered (Suc i) cs"

text \<open>
  The timing line and the block \<^verbatim>\<open>generate_srt\<close> writes for the cue number \<open>i\<close>, and the
  document of the cues numbered from \<open>i\<close> on, once the line endings are normalised and the
  content is stripped: the blocks, separated by an empty line.
\<close>

definition timing_line :: "Cue \<Rightarrow> ustr" where
  "timing_line c =
     format_timestamp (start_time c) @ [32, 45, 45, 62, 32] @ format_timestamp (end_time c)"

definition srt_block :: "nat \<Rightarrow> Cue \<Rightarrow> ustr" where
  "srt_block i c = py_str (int i) @ [10] @ timing_line c @ [10] @ text c"

fun srt_doc :: "nat \<Rightarrow> Cue list \<Rightarrow> ustr" where
  "srt_doc i [] = []"
| "srt_doc i [c] = srt_block i c"
| "srt_doc i (c # c' # cs) = srt_block i c @ [10, 10] @ srt_doc (Suc i) (c' # cs)"

section \<open>Facts about the string primitives\<close>

lemma digit_val_ascii: "d < 10 \<Longrightarrow> digit_val (48 + d) = Some d"
  by (simp add: digit_val_def decimal_zeros_def)

lemma is_digit_ascii: "d < 10 \<Longrightarrow> is_digit (48 + d)"
  by (simp add: is_digit_def digit_val_ascii)

lemma not_space_ascii_digit: "d < 10 \<Longrightarrow> \<not> is_space (48 + d)"
  by (simp add: is_space_def)

lemma digits_1: "n < 10 \<Longrightarrow> digits n = [48 + n]"
  by (simp add: digits.simps)

lemma digits_2: "10 \<le> n \<Longrightarrow> n < 100 \<Longrightarrow> digits n = [48 + n div 10, 48 + n mod 10]"
  by (subst digits.simps) (simp add: digits_1)

lemma digits_3:
  "100 \<le> n \<Longrightarrow> n < 1000 \<Longrightarrow> digits n = [48 + n div 100, 48 + n div 10 mod 10, 48 + n mod 10]"
  by (subst digits.simps) (simp add: digits_2 div_mult2_eq[symmetric])

lemma replicate_2: "replicate 2 x = [x, x]"
  by (simp add: numeral_2_eq_2)

lemma fmt_0d_2: "n < 100 \<Longrightarrow> fmt_0d 2 (int n) = [48 + n div 10, 48 + n mod 10]"
  by (cases "n < 10") (simp_all add: fmt_0d_def zfill_def digits_1 digits_2)

lemma fmt_0d_3:
  "n < 1000 \<Longrightarrow> fmt_0d 3 (int n) = [48 + n div 100, 48 + n div 10 mod 10, 48 + n mod 10]"
proof -
  assume n: "n < 1000"
  consider "n < 10" | "10 \<le> n" "n < 100" | "100 \<le> n" by linarith
  then show ?thesis
  proof cases
    case 1 then show ?thesis by (simp add: fmt_0d_def zfill_def digits_1 replicate_2)
  next
    case 2 then show ?thesis by (simp add: fmt_0d_def zfill_def digits_2)
  next
    case 3 with n show ?thesis by (simp add: fmt_0d_def zfill_def digits_3)
  qed
qed

lemma py_int_2: "a < 10 \<Longrightarrow> b < 10 \<Longrightarrow> py_int [48 + a, 48 + b] = Some (int (a * 10 + b))"
  by (simp add: py_int_def int_space_def not_space_ascii_digit digit_val_ascii is_digit_ascii
      MAX_STR_DIGITS_def)

lemma py_int_3:
  "a < 10 \<Longrightarrow> b < 10 \<Longrightarrow> c < 10 \<Longrightarrow>
   py_int [48 + a, 48 + b, 48 + c] = Some (int ((a * 10 + b) * 10 + c))"
  by (simp add: py_int_def int_space_def not_space_ascii_digit digit_val_ascii is_digit_ascii
      MAX_STR_DIGITS_def)

lemma replace_no_occurrence: "old \<noteq> [] \<Longrightarrow> \<forall>c\<in>set s. c \<noteq> hd old \<Longrightarrow> replace old new s = s"
proof (induction s)
  case Nil
  then show ?case by (simp add: replace.simps)
next
  case (Cons c s)
  then have "\<not> startswith (c # s) old"
    by (cases old) (auto simp: startswith_def)
  with Cons show ?case by (subst replace.simps) simp
qed

lemma replace_char: "replace [a] [b] s = map (\<lambda>c. if c = a then b else c) s"
proof (induction s)
  case Nil
  then show ?case by (simp add: replace.simps)
next
  case (Cons c s)
  then show ?case by (subst replace.simps) (simp add: startswith_def)
qed

lemma parse_timestamp_digits:
  assumes "a < 10" "b < 10" "c < 10" "d < 10" "e < 10" "f < 10" "g < 10" "h < 10" "i < 10"
    and "sep = 44 \<or> sep = 46"
  shows "parse_timestamp [48 + a, 48 + b, 58, 48 + c, 48 + d, 58, 48 + e, 48 + f, sep, 48 + g, 48 + h, 48 + i]
       = Inr ((int (a * 10 + b) * 3600 + int (c * 10 + d) * 60 + int (e * 10 + f)) * 1000 + int ((g * 10 + h) * 10 + i))"
proof -
  let ?s = "[48 + a, 48 + b, 58, 48 + c, 48 + d, 58, 48 + e, 48 + f, 44, 48 + g, 48 + h, 48 + i]"
  have r: "replace [46] [44] [48 + a, 48 + b, 58, 48 + c, 48 + d, 58, 48 + e, 48 + f, sep, 48 + g, 48 + h, 48 + i] = ?s"
    using assms by (auto simp: replace_char)
  have s: "strip ?s = ?s"
    using assms by (simp add: strip_def not_space_ascii_digit)
  have m: "match_timestamp ?s = Some ([48 + a, 48 + b], [48 + c, 48 + d], [48 + e, 48 + f], [48 + g, 48 + h, 48 + i])"
    using assms by (simp add: match_timestamp_def is_digit_ascii)
  show ?thesis
    unfolding parse_timestamp_def r s m using assms by (simp add: py_int_2 py_int_3)
qed

lemma format_timestamp_nat:
  "format_timestamp (int n) =
     fmt_0d 2 (int (n div 1000 div 3600)) @ [58] @ fmt_0d 2 (int (n div 1000 mod 3600 div 60)) @ [58] @
     fmt_0d 2 (int (n div 1000 mod 60)) @ [44] @ fmt_0d 3 (int (n mod 1000))"
  by (simp add: format_timestamp_def Let_def zdiv_int zmod_int)

lemma div_mult_add: "(b::nat) < k \<Longrightarrow> (a * k + b) div k = a"
  and mod_mult_add: "(b::nat) < k \<Longrightarrow> (a * k + b) mod k = b"
  by simp_all

lemma format_timestamp_fields:
  assumes "H < 100" "M < 60" "S < 60" "F < 1000"
  shows "format_timestamp (int ((H * 3600 + M * 60 + S) * 1000 + F)) =
           [48 + H div 10, 48 + H mod 10, 58, 48 + M div 10, 48 + M mod 10, 58,
            48 + S div 10, 48 + S mod 10, 44, 48 + F div 100, 48 + F div 10 mod 10, 48 + F mod 10]"
proof -
  let ?n = "(H * 3600 + M * 60 + S) * 1000 + F"
  have ts: "?n div 1000 = H * 3600 + M * 60 + S" and f: "?n mod 1000 = F"
    using assms by (simp_all only: div_mult_add mod_mult_add)
  have "M * 60 + S < 3600"
    using assms by linarith
  then have h: "(H * 3600 + M * 60 + S) div 3600 = H"
    and r: "(H * 3600 + M * 60 + S) mod 3600 = M * 60 + S"
    using div_mult_add[of "M * 60 + S" 3600 H] mod_mult_add[of "M * 60 + S" 3600 H]
    by (simp_all only: add.assoc)
  have m: "(M * 60 + S) div 60 = M"
    using assms by (simp only: div_mult_add)
  have "(H * 3600 + M * 60 + S) mod 60 = ((H * 60 + M) * 60 + S) mod 60"
    by (simp add: algebra_simps)
  then have s: "(H * 3600 + M * 60 + S) mod 60 = S"
    using assms by (simp only: mod_mult_add)
  have "format_timestamp (int ?n) =
     fmt_0d 2 (int H) @ [58] @ fmt_0d 2 (int M) @ [58] @ fmt_0d 2 (int S) @ [44] @ fmt_0d 3 (int F)"
    unfolding format_timestamp_nat ts f h r m s ..
  also have "\<dots> = [48 + H div 10, 48 + H mod 10, 58, 48 + M div 10, 48 + M mod 10, 58,
            48 + S div 10, 48 + S mod 10, 44, 48 + F div 100, 48 + F div 10 mod 10, 48 + F mod 10]"
    using assms by (simp add: fmt_0d_2 fmt_0d_3)
  finally show ?thesis .
qed

lemma digits_recompose_2: "(H::nat) div 10 * 10 + H mod 10 = H"
  by simp

lemma digits_recompose_3: "((F::nat) div 100 * 10 + F div 10 mod 10) * 10 + F mod 10 = F"
proof -
  have "F div 100 = F div 10 div 10"
    by (simp add: div_mult2_eq[symmetric])
  then show ?thesis
    by (simp add: digits_recompose_2)
qed

lemma parse_format_timestamp_nat:
  assumes "n < 360000000"
  shows "parse_timestamp (format_timestamp (int n)) = Inr (int n)"
proof -
  define ts where "ts = n div 1000"
  define H M S F where "H = ts div 3600" and "M = ts mod 3600 div 60"
    and "S = ts mod 60" and "F = n mod 1000"
  have "ts < 360000"
    using assms by (simp add: ts_def div_less_iff_less_mult)
  then have "H < 100"
    by (simp add: H_def div_less_iff_less_mult)
  have "ts mod 3600 < 3600"
    by simp
  then have "M < 60"
    by (simp add: M_def div_less_iff_less_mult)
  have b: "H < 100" "M < 60" "S < 60" "F < 1000"
    using \<open>H < 100\<close> \<open>M < 60\<close> by (simp_all add: S_def F_def)
  have "ts mod 3600 mod 60 = ts mod 60"
    by (rule mod_mod_cancel) simp
  then have "ts mod 3600 = M * 60 + S"
    using div_mult_mod_eq[of "ts mod 3600" 60] by (simp only: M_def S_def)
  then have "ts = H * 3600 + M * 60 + S"
    using div_mult_mod_eq[of ts 3600] by (simp only: H_def add.assoc)
  then have n: "n = (H * 3600 + M * 60 + S) * 1000 + F"
    using div_mult_mod_eq[of n 1000] by (simp only: ts_def F_def)
  have "parse_timestamp (format_timestamp (int ((H * 3600 + M * 60 + S) * 1000 + F))) =
      Inr ((int (H div 10 * 10 + H mod 10) * 3600 + int (M div 10 * 10 + M mod 10) * 60 +
            int (S div 10 * 10 + S mod 10)) * 1000 + int ((F div 100 * 10 + F div 10 mod 10) * 10 + F mod 10))"
    unfolding format_timestamp_fields[OF b]
    using b by (intro parse_timestamp_digits) (simp_all add: div_less_iff_less_mult)
  then have "parse_timestamp (format_timestamp (int ((H * 3600 + M * 60 + S) * 1000 + F))) =
      Inr ((int H * 3600 + int M * 60 + int S) * 1000 + int F)"
    unfolding digits_recompose_2 digits_recompose_3 .
  then show ?thesis
    unfolding n by simp
qed

subsection \<open>Timestamps: parsing and formatting\<close>

lemma parse_timestamp_hms:
  assumes "H < 100" "M < 100" "S < 100" "F < 1000" "sep = 44 \<or> sep = 46"
  shows "parse_timestamp (hms_string H M S sep F) =
           Inr ((int H * 3600 + int M * 60 + int S) * 1000 + int F)"
proof -
  have "parse_timestamp (hms_string H M S sep F) =
      Inr ((int (H div 10 * 10 + H mod 10) * 3600 + int (M div 10 * 10 + M mod 10) * 60 +
            int (S div 10 * 10 + S mod 10)) * 1000 + int ((F div 100 * 10 + F div 10 mod 10) * 10 + F mod 10))"
    unfolding hms_string_def
    using assms by (intro parse_timestamp_digits) (simp_all add: div_less_iff_less_mult)
  then show ?thesis
    unfolding digits_recompose_2 digits_recompose_3 .
qed

lemma format_timestamp_hms:
  assumes "H < 100" "M < 60" "S < 60" "F < 1000"
  shows "format_timestamp ((int H * 3600 + int M * 60 + int S) * 1000 + int F) = hms_string H M S 44 F"
proof -
  have "(int H * 3600 + int M * 60 + int S) * 1000 + int F = int ((H * 3600 + M * 60 + S) * 1000 + F)"
    by simp
  then show ?thesis
    using format_timestamp_fields[OF assms] by (simp only: hms_string_def)
qed

text \<open>
  C5 (amended). \<open>parse_timestamp\<close> converts every timestamp \<^verbatim>\<open>HH:MM:SS,mmm\<close> (two-digit
  fields, comma or period before the milliseconds) exactly to
  \<open>((H * 3600) + (M * 60) + S) * 1000 + mmm\<close> milliseconds. \<open>format_timestamp\<close> inverts it
  on canonical values: parsing the formatted text of any \<open>ms\<close> with \<open>0 \<le> ms < 360000000\<close>
  (under 100 hours) gives \<open>ms\<close> back, and formatting the parsed value of a timestamp with
  \<open>M < 60\<close> and \<open>S < 60\<close> gives the timestamp back, written with a comma.
\<close>

theorem timestamp_conversion:
  "(\<forall>H M S F sep. H < 100 \<and> M < 100 \<and> S < 100 \<and> F < 1000 \<and> (sep = 44 \<or> sep = 46) \<longrightarrow>
      parse_timestamp (hms_string H M S sep F) =
        Inr ((int H * 3600 + int M * 60 + int S) * 1000 + int F)) \<and>
   (\<forall>ms. 0 \<le> ms \<and> ms < 360000000 \<longrightarrow> parse_timestamp (format_timestamp ms) = Inr ms) \<and>
   (\<forall>H M S F. H < 100 \<and> M < 60 \<and> S < 60 \<and> F < 1000 \<longrightarrow>
      format_timestamp ((int H * 3600 + int M * 60 + int S) * 1000 + int F) = hms_string H M S 44 F)"
proof (intro conjI allI impI)
  fix H M S F sep :: nat
  assume "H < 100 \<and> M < 100 \<and> S < 100 \<and> F < 1000 \<and> (sep = 44 \<or> sep = 46)"
  then show "parse_timestamp (hms_string H M S sep F) =
        Inr ((int H * 3600 + int M * 60 + int S) * 1000 + int F)"
    by (intro parse_timestamp_hms) simp_all
next
  fix ms :: int
  assume "0 \<le> ms \<and> ms < 360000000"
  then have "nat ms < 360000000" and "int (nat ms) = ms"
    by (simp_all add: nat_less_iff)
  then show "parse_timestamp (format_timestamp ms) = Inr ms"
    using parse_format_timestamp_nat[of "nat ms"] by simp
next
  fix H M S F :: nat
  assume "H < 100 \<and> M < 60 \<and> S < 60 \<and> F < 1000"
  then show "format_timestamp ((int H * 3600 + int M * 60 + int S) * 1000 + int F) = hms_string H M S 44 F"
    by (intro format_timestamp_hms) simp_all
qed

theorem timestamp_conversion_witness:
  "parse_timestamp (of_ascii ''00:01:02,345'') = Inr 62345 \<and>
   parse_timestamp (of_ascii ''00:01:02.345'') = Inr 62345 \<and>
   format_timestamp 62345 = of_ascii ''00:01:02,345'' \<and>
   parse_timestamp (format_timestamp 62345) = Inr 62345 \<and>
   parse_timestamp (of_ascii ''00:00:00,000'') = Inr 0 \<and>
   format_timestamp 0 = of_ascii ''00:00:00,000'' \<and>
   parse_timestamp (format_timestamp 0) = Inr 0"
proof -
  have s1: "hms_string 0 1 2 44 345 = of_ascii ''00:01:02,345''"
    and s2: "hms_string 0 1 2 46 345 = of_ascii ''00:01:02.345''"
    and s3: "hms_string 0 0 0 44 0 = of_ascii ''00:00:00,000''"
    by (simp_all add: hms_string_def of_ascii_def)
  note tc = timestamp_conversion
  have P: "H < 100 \<and> M < 100 \<and> S < 100 \<and> F < 1000 \<and> (sep = 44 \<or> sep = 46) \<Longrightarrow>
      parse_timestamp (hms_string H M S sep F) =
        Inr ((int H * 3600 + int M * 60 + int S) * 1000 + int F)" for H M S F sep
    using tc by blast
  have R: "0 \<le> ms \<and> ms < 360000000 \<Longrightarrow> parse_timestamp (format_timestamp ms) = Inr ms" for ms
    using tc by blast
  have Q: "H < 100 \<and> M < 60 \<and> S < 60 \<and> F < 1000 \<Longrightarrow>
      format_timestamp ((int H * 3600 + int M * 60 + int S) * 1000 + int F) = hms_string H M S 44 F"
    for H M S F
    using tc by blast
  have p1: "parse_timestamp (hms_string 0 1 2 44 345) = Inr 62345"
    using P[of 0 1 2 345 44] by simp
  have p2: "parse_timestamp (hms_string 0 1 2 46 345) = Inr 62345"
    using P[of 0 1 2 345 46] by simp
  have p3: "parse_timestamp (hms_string 0 0 0 44 0) = Inr 0"
    using P[of 0 0 0 0 44] by simp
  have f1: "format_timestamp 62345 = hms_string 0 1 2 44 345"
    using Q[of 0 1 2 345] by simp
  have f2: "format_timestamp 0 = hms_string 0 0 0 44 0"
    using Q[of 0 0 0 0] by simp
  have r1: "parse_timestamp (format_timestamp 62345) = Inr 62345"
    using R[of 62345] by simp
  have r2: "parse_timestamp (format_timestamp 0) = Inr 0"
    using R[of 0] by simp
  show ?thesis
    using p1 p2 p3 f1 f2 r1 r2 by (simp only: s1 s2 s3 simp_thms)
qed

theorem timestamp_inverse_counterexample:
  "parse_timestamp (of_ascii ''00:61:00,000'') = Inr 3660000 \<and>
   format_timestamp 3660000 = of_ascii ''01:01:00,000'' \<and>
   format_timestamp 360000000 = of_ascii ''100:00:00,000'' \<and>
   parse_timestamp (format_timestamp 360000000) = Inl ValueError"
proof -
  have f: "format_timestamp 360000000 = of_ascii ''100:00:00,000''"
    by (simp add: format_timestamp_def fmt_0d_def zfill_def digits.simps of_ascii_def replicate_2)
  have "parse_timestamp (of_ascii ''100:00:00,000'') = Inl ValueError"
    by (simp add: parse_timestamp_def of_ascii_def replace_char strip_def is_space_def
        match_timestamp_def is_digit_def digit_val_def decimal_zeros_def)
  moreover have "parse_timestamp (of_ascii ''00:61:00,000'') = Inr 3660000"
    using parse_timestamp_hms[of 0 61 0 0 44] by (simp add: hms_string_def of_ascii_def)
  moreover have "format_timestamp 3660000 = of_ascii ''01:01:00,000''"
    by (simp add: format_timestamp_def fmt_0d_def zfill_def digits.simps of_ascii_def replicate_2)
  ultimately show ?thesis
    using f by simp
qed

subsection \<open>Batching\<close>

lemma nat_diff_nonneg: "0 \<le> a \<Longrightarrow> nat (b - a) = nat b - nat a"
  by linarith

lemma py_slice_nonneg:
  assumes "0 \<le> a" "0 \<le> b"
  shows "py_slice xs a b = take (nat b - nat a) (drop (nat a) xs)"
proof -
  let ?n = "int (length xs)"
  have "py_slice xs a b = take (nat (min b ?n) - nat (min a ?n)) (drop (nat (min a ?n)) xs)"
    using assms by (simp add: py_slice_def Let_def nat_diff_nonneg)
  also have "\<dots> = take (nat b - nat a) (drop (nat a) xs)"
  proof (cases "a \<le> ?n")
    case True
    then have a: "min a ?n = a"
      by simp
    have "nat (min b ?n) - nat a = min (nat b - nat a) (length xs - nat a)"
      using assms True by (simp add: min_def) linarith
    then show ?thesis
      unfolding a by (simp add: min_def)
  next
    case False
    then show ?thesis
      using assms by (simp add: min_def)
  qed
  finally show ?thesis .
qed

lemma batches_from_stop:
  "\<not> (0 < batch_size \<and> i < int (length xs)) \<Longrightarrow> batches_from xs batch_size context_size i = []"
  by (subst batches_from.simps) auto

lemma batches_from_step:
  assumes "0 < batch_size" "0 \<le> i" "i < int (length xs)"
  shows "batches_from xs batch_size context_size i =
           \<lparr>cues = take (nat batch_size) (drop (nat i) xs),
            prev_context = py_slice xs (max 0 (i - context_size)) i,
            next_context = py_slice xs (i + batch_size)
               (min (int (length xs)) (i + batch_size + context_size)),
            start_index = i,
            end_index = i + int (length (take (nat batch_size) (drop (nat i) xs))) - 1\<rparr>
           # batches_from xs batch_size context_size (i + batch_size)"
proof -
  have "py_slice xs i (i + batch_size) = take (nat batch_size) (drop (nat i) xs)"
    using assms by (simp add: py_slice_nonneg nat_add_distrib)
  then show ?thesis
    using assms by (subst batches_from.simps) (simp add: Let_def)
qed

lemma batches_from_concat:
  "0 < batch_size \<Longrightarrow> 0 \<le> i \<Longrightarrow>
   concat (map cues (batches_from xs batch_size context_size i)) = drop (nat i) xs"
proof (induction xs batch_size context_size i rule: batches_from.induct)
  case (1 xs batch_size context_size i)
  show ?case
  proof (cases "i < int (length xs)")
    case False
    then show ?thesis
      by (simp add: batches_from_stop)
  next
    case True
    have "concat (map cues (batches_from xs batch_size context_size (i + batch_size)))
            = drop (nat (i + batch_size)) xs"
      using 1 True by simp
    moreover have "nat (i + batch_size) = nat batch_size + nat i"
      using 1 by (simp add: nat_add_distrib)
    ultimately show ?thesis
      using 1 True by (simp add: batches_from_step drop_drop[symmetric] del: drop_drop)
  qed
qed

lemma batches_from_nth:
  "0 < batch_size \<Longrightarrow> 0 \<le> i \<Longrightarrow> k < length (batches_from xs batch_size context_size i) \<Longrightarrow>
   start_index (batches_from xs batch_size context_size i ! k) = i + int k * batch_size"
proof (induction xs batch_size context_size i arbitrary: k rule: batches_from.induct)
  case (1 xs batch_size context_size i)
  show ?case
  proof (cases "i < int (length xs)")
    case False
    with "1.prems" show ?thesis
      by (simp add: batches_from_stop)
  next
    case True
    note step = batches_from_step[OF "1.prems"(1,2) True, of context_size]
    show ?thesis
    proof (cases k)
      case 0
      then show ?thesis
        by (simp add: step)
    next
      case (Suc j)
      then have "j < length (batches_from xs batch_size context_size (i + batch_size))"
        using "1.prems"(3) by (simp add: step)
      then have "start_index (batches_from xs batch_size context_size (i + batch_size) ! j)
                   = i + batch_size + int j * batch_size"
        using 1 True by simp
      then show ?thesis
        by (simp add: step Suc algebra_simps)
    qed
  qed
qed

lemma batches_from_member:
  "0 < batch_size \<Longrightarrow> 0 \<le> i \<Longrightarrow> b \<in> set (batches_from xs batch_size context_size i) \<Longrightarrow>
   i \<le> start_index b \<and> start_index b < int (length xs) \<and>
   cues b = take (nat batch_size) (drop (nat (start_index b)) xs) \<and>
   end_index b = start_index b + int (length (cues b)) - 1 \<and>
   prev_context b = py_slice xs (max 0 (start_index b - context_size)) (start_index b) \<and>
   next_context b = py_slice xs (start_index b + batch_size)
      (min (int (length xs)) (start_index b + batch_size + context_size))"
proof (induction xs batch_size context_size i rule: batches_from.induct)
  case (1 xs batch_size context_size i)
  show ?case
  proof (cases "i < int (length xs)")
    case False
    with "1.prems" show ?thesis
      by (simp add: batches_from_stop)
  next
    case True
    note step = batches_from_step[OF "1.prems"(1,2) True, of context_size]
    from "1.prems"(3) consider
      (head) "b = hd (batches_from xs batch_size context_size i)"
      | (tail) "b \<in> set (batches_from xs batch_size context_size (i + batch_size))"
      by (auto simp: step)
    then show ?thesis
    proof cases
      case head
      then show ?thesis
        using True by (simp add: step)
    next
      case tail
      then show ?thesis
        using "1.IH" "1.prems"(1,2) True by force
    qed
  qed
qed

lemma py_slice_window:
  assumes "0 \<le> a" "0 \<le> c"
  shows "py_slice xs a (min (int (length xs)) (a + c)) = take (nat c) (drop (nat a) xs)"
proof -
  let ?ys = "drop (nat a) xs"
  have "py_slice xs a (min (int (length xs)) (a + c))
          = take (nat (min (int (length xs)) (a + c)) - nat a) ?ys"
    using assms by (simp add: py_slice_nonneg)
  also have "nat (min (int (length xs)) (a + c)) - nat a = min (length ?ys) (nat c)"
    using assms by (simp add: min_def) linarith
  also have "take (min (length ?ys) (nat c)) ?ys = take (nat c) ?ys"
    by (simp add: min_def)
  finally show ?thesis .
qed

lemma py_slice_before:
  assumes "0 \<le> s" "0 \<le> c"
  shows "py_slice xs (max 0 (s - c)) s = drop (nat s - nat c) (take (nat s) xs)"
proof -
  have "nat (max 0 (s - c)) = nat s - nat c"
    using assms by linarith
  then show ?thesis
    using assms by (simp add: py_slice_nonneg drop_take)
qed

lemma batches_from_facts:
  assumes "0 < batch_size" "k < length (batches_from xs batch_size context_size 0)"
  defines "b \<equiv> batches_from xs batch_size context_size 0 ! k"
  shows "start_index b = int k * batch_size"
    and "k * nat batch_size < length xs"
    and "cues b = take (nat batch_size) (drop (k * nat batch_size) xs)"
    and "end_index b = start_index b + int (length (cues b)) - 1"
    and "prev_context b = py_slice xs (max 0 (start_index b - context_size)) (start_index b)"
    and "next_context b = py_slice xs (start_index b + batch_size)
      (min (int (length xs)) (start_index b + batch_size + context_size))"
proof -
  have "b \<in> set (batches_from xs batch_size context_size 0)"
    using assms by simp
  note m = batches_from_member[OF assms(1) order_refl this]
  show s: "start_index b = int k * batch_size"
    using batches_from_nth[OF assms(1) order_refl assms(2)] by (simp add: b_def)
  have n: "nat (start_index b) = k * nat batch_size"
    using assms(1) by (simp add: s nat_mult_distrib)
  from m have "nat (start_index b) < length xs"
    by linarith
  then show "k * nat batch_size < length xs"
    by (simp only: n)
  show "cues b = take (nat batch_size) (drop (k * nat batch_size) xs)"
    using m by (simp only: n)
  show "end_index b = start_index b + int (length (cues b)) - 1"
    and "prev_context b = py_slice xs (max 0 (start_index b - context_size)) (start_index b)"
    and "next_context b = py_slice xs (start_index b + batch_size)
      (min (int (length xs)) (start_index b + batch_size + context_size))"
    using m by simp_all
qed


text \<open>
  C2. For every cue list and every positive \<open>batch_size\<close>, \<open>create_batches\<close> returns
  batches whose \<open>cues\<close> slices, concatenated in batch order, are the cue list. Batch \<open>k\<close>
  is the slice of at most \<open>batch_size\<close> cues that starts at position \<open>k * batch_size\<close>, it
  is not empty, every batch but the last holds exactly \<open>batch_size\<close> cues, and the
  positions of two batches never overlap (an earlier batch ends before a later one
  starts). The empty cue list gives no batch.
\<close>

theorem create_batches_partition:
  assumes "0 < batch_size"
  shows "\<exists>bats. create_batches cue_list batch_size context_size = Inr bats \<and>
     concat (map cues bats) = cue_list \<and>
     (cue_list = [] \<longrightarrow> bats = []) \<and>
     (\<forall>k<length bats.
        cues (bats ! k) = take (nat batch_size) (drop (k * nat batch_size) cue_list) \<and>
        start_index (bats ! k) = int k * batch_size \<and>
        end_index (bats ! k) = start_index (bats ! k) + int (length (cues (bats ! k))) - 1 \<and>
        0 < length (cues (bats ! k)) \<and> length (cues (bats ! k)) \<le> nat batch_size \<and>
        (Suc k < length bats \<longrightarrow> length (cues (bats ! k)) = nat batch_size) \<and>
        (\<forall>j<k. end_index (bats ! j) < start_index (bats ! k)))"
proof -
  define bats where "bats = batches_from cue_list batch_size context_size 0"
  define B where "B = nat batch_size"
  have B: "0 < B" "int B = batch_size"
    using assms by (simp_all add: B_def)
  have cb: "create_batches cue_list batch_size context_size = Inr bats"
    using assms by (simp add: create_batches_def bats_def)
  have cover: "concat (map cues bats) = cue_list"
    using batches_from_concat[OF assms order_refl, of cue_list context_size]
    by (simp add: bats_def)
  have empty: "cue_list = [] \<longrightarrow> bats = []"
    by (simp add: bats_def batches_from_stop)
  have facts: "start_index (bats ! k) = int k * batch_size"
    "k * B < length cue_list"
    "cues (bats ! k) = take B (drop (k * B) cue_list)"
    "end_index (bats ! k) = start_index (bats ! k) + int (length (cues (bats ! k))) - 1"
    if "k < length bats" for k
    using batches_from_facts[OF assms, of k cue_list context_size] that
    by (simp_all add: bats_def B_def)
  have len: "length (cues (bats ! k)) = min B (length cue_list - k * B)" if "k < length bats" for k
    using facts(3)[OF that] by simp
  have each: "cues (bats ! k) = take (nat batch_size) (drop (k * nat batch_size) cue_list) \<and>
        start_index (bats ! k) = int k * batch_size \<and>
        end_index (bats ! k) = start_index (bats ! k) + int (length (cues (bats ! k))) - 1 \<and>
        0 < length (cues (bats ! k)) \<and> length (cues (bats ! k)) \<le> nat batch_size \<and>
        (Suc k < length bats \<longrightarrow> length (cues (bats ! k)) = nat batch_size) \<and>
        (\<forall>j<k. end_index (bats ! j) < start_index (bats ! k))"
    if k: "k < length bats" for k
  proof (intro conjI impI allI)
    show "cues (bats ! k) = take (nat batch_size) (drop (k * nat batch_size) cue_list)"
      using facts(3)[OF k] by (simp add: B_def)
    show "start_index (bats ! k) = int k * batch_size"
      by (rule facts(1)[OF k])
    show "end_index (bats ! k) = start_index (bats ! k) + int (length (cues (bats ! k))) - 1"
      by (rule facts(4)[OF k])
    show "0 < length (cues (bats ! k))"
      using facts(2)[OF k] B(1) by (simp add: len[OF k])
    show "length (cues (bats ! k)) \<le> nat batch_size"
      by (simp add: len[OF k] B_def)
  next
    assume "Suc k < length bats"
    then have "Suc k * B < length cue_list"
      by (rule facts(2))
    then show "length (cues (bats ! k)) = nat batch_size"
      by (simp add: len[OF k] B_def[symmetric])
  next
    fix j
    assume j: "j < k"
    then have jl: "j < length bats"
      using k by simp
    have "length (cues (bats ! j)) \<le> B"
      by (simp add: len[OF jl])
    then have "end_index (bats ! j) < int (Suc j) * batch_size"
      using B by (simp add: facts(4)[OF jl] facts(1)[OF jl] algebra_simps)
    also have "int (Suc j) * batch_size \<le> int k * batch_size"
      using j assms by (intro mult_right_mono) simp_all
    finally show "end_index (bats ! j) < start_index (bats ! k)"
      by (simp only: facts(1)[OF k])
  qed
  show ?thesis
    using cb cover empty each by blast
qed

theorem create_batches_partition_witness:
  "create_batches [10, 20, 30, 40, 50 :: nat] 2 2 =
     Inr [\<lparr>cues = [10, 20], prev_context = [], next_context = [30, 40], start_index = 0, end_index = 1\<rparr>,
          \<lparr>cues = [30, 40], prev_context = [10, 20], next_context = [50], start_index = 2, end_index = 3\<rparr>,
          \<lparr>cues = [50], prev_context = [30, 40], next_context = [], start_index = 4, end_index = 4\<rparr>] \<and>
   (\<exists>bats. create_batches [10, 20, 30, 40, 50 :: nat] 2 2 = Inr bats \<and>
      concat (map cues bats) = [10, 20, 30, 40, 50] \<and> length bats = 3 \<and>
      end_index (bats ! 0) < start_index (bats ! 1) \<and> length (cues (bats ! 2)) = 1)"
proof -
  have e: "create_batches [10, 20, 30, 40, 50 :: nat] 2 2 =
     Inr [\<lparr>cues = [10, 20], prev_context = [], next_context = [30, 40], start_index = 0, end_index = 1\<rparr>,
          \<lparr>cues = [30, 40], prev_context = [10, 20], next_context = [50], start_index = 2, end_index = 3\<rparr>,
          \<lparr>cues = [50], prev_context = [30, 40], next_context = [], start_index = 4, end_index = 4\<rparr>]"
    by (simp add: create_batches_def batches_from.simps py_slice_def Let_def)
  obtain bats where b: "create_batches [10, 20, 30, 40, 50 :: nat] 2 2 = Inr bats"
    "concat (map cues bats) = [10, 20, 30, 40, 50]"
    using create_batches_partition[of 2 "[10, 20, 30, 40, 50 :: nat]" 2] by auto
  from b(1) e have "length bats = 3" "end_index (bats ! 0) < start_index (bats ! 1)"
    "length (cues (bats ! 2)) = 1"
    by auto
  with b e show ?thesis
    by blast
qed

text \<open>
  C7. For every cue list, positive \<open>batch_size\<close> and positive \<open>context_size\<close>: a batch
  whose items are the positions \<open>s .. e\<close> of the cue list has as leading context the (at
  most \<open>context_size\<close>) cues at the positions just before \<open>s\<close> and as trailing context the
  (at most \<open>context_size\<close>) cues at the positions just after \<open>e\<close>, so no context position
  is a position of the batch's own items; the first batch has no leading context.
\<close>

theorem create_batches_context:
  assumes "0 < batch_size" "0 < context_size"
  shows "\<exists>bats. create_batches cue_list batch_size context_size = Inr bats \<and>
     (\<forall>k<length bats.
        (let b = bats ! k; s = nat (start_index b); e = nat (end_index b) in
           int s = start_index b \<and> int e = end_index b \<and> s \<le> e \<and> e < length cue_list \<and>
           cues b = take (Suc e - s) (drop s cue_list) \<and>
           prev_context b = drop (s - nat context_size) (take s cue_list) \<and>
           next_context b = take (nat context_size) (drop (Suc e) cue_list) \<and>
           length (prev_context b) \<le> nat context_size \<and>
           length (next_context b) \<le> nat context_size)) \<and>
     (bats \<noteq> [] \<longrightarrow> prev_context (hd bats) = [])"
proof -
  define bats where "bats = batches_from cue_list batch_size context_size 0"
  define B where "B = nat batch_size"
  define C where "C = nat context_size"
  have B: "0 < B" "int B = batch_size" and C: "int C = context_size"
    using assms by (simp_all add: B_def C_def)
  have cb: "create_batches cue_list batch_size context_size = Inr bats"
    using assms by (simp add: create_batches_def bats_def)
  have each: "(let b = bats ! k; s = nat (start_index b); e = nat (end_index b) in
           int s = start_index b \<and> int e = end_index b \<and> s \<le> e \<and> e < length cue_list \<and>
           cues b = take (Suc e - s) (drop s cue_list) \<and>
           prev_context b = drop (s - nat context_size) (take s cue_list) \<and>
           next_context b = take (nat context_size) (drop (Suc e) cue_list) \<and>
           length (prev_context b) \<le> nat context_size \<and>
           length (next_context b) \<le> nat context_size)"
    if k: "k < length bats" for k
  proof -
    define b where "b = bats ! k"
    note f = batches_from_facts[OF assms(1), of k cue_list context_size, folded bats_def b_def, OF k]
    define s where "s = k * B"
    define len where "len = min B (length cue_list - s)"
    have s: "start_index b = int s" "s < length cue_list"
      using f(1,2) B(2) by (simp_all add: s_def B_def)
    have cu: "cues b = take B (drop s cue_list)"
      using f(3) by (simp add: s_def B_def)
    then have l: "length (cues b) = len" "0 < len"
      using s(2) B(1) by (simp_all add: len_def)
    define en where "en = s + len - 1"
    have se: "Suc en = s + len" "Suc en - s = len" "s \<le> en"
      using l(2) by (simp_all add: en_def)
    have e: "end_index b = int en"
      using f(4) l by (simp add: s(1) en_def)
    have pv: "prev_context b = drop (s - C) (take s cue_list)"
      using f(5) py_slice_before[of "int s" context_size cue_list] assms(2)
      by (simp add: s(1) C_def)
    have "next_context b = py_slice cue_list (int (s + B))
        (min (int (length cue_list)) (int (s + B) + context_size))"
      using f(6) by (simp add: s(1) B(2))
    also have "\<dots> = take C (drop (s + B) cue_list)"
      using py_slice_window[of "int (s + B)" context_size cue_list] assms(2)
      by (simp only: C_def nat_int)
    also have "\<dots> = take C (drop (s + len) cue_list)"
    proof (cases "B \<le> length cue_list - s")
      case True
      then show ?thesis
        by (simp add: len_def)
    next
      case False
      then show ?thesis
        using s(2) by (simp add: len_def)
    qed
    finally have nx: "next_context b = take C (drop (s + len) cue_list)" .
    have "cues b = take len (drop s cue_list)"
      by (simp add: cu len_def min_def)
    moreover have "en < length cue_list"
      using s(2) l(2) by (simp add: en_def len_def min_def split: if_splits)
    ultimately show ?thesis
      unfolding Let_def b_def[symmetric]
      by (simp add: s(1) e se pv nx C_def)
  qed
  have first: "bats \<noteq> [] \<longrightarrow> prev_context (hd bats) = []"
  proof
    assume ne: "bats \<noteq> []"
    then have "0 < length bats"
      by simp
    from each[OF this] show "prev_context (hd bats) = []"
      using ne by (simp add: Let_def hd_conv_nth batches_from_facts(1)[OF assms(1), of 0 cue_list context_size, folded bats_def])
  qed
  show ?thesis
    using cb each first by blast
qed


theorem create_batches_context_witness:
  "\<exists>bats. create_batches [10, 20, 30, 40, 50 :: nat] 2 2 = Inr bats \<and> length bats = 3 \<and>
     cues (hd bats) = [10, 20] \<and> prev_context (hd bats) = [] \<and> next_context (hd bats) = [30, 40] \<and>
     prev_context (bats ! 1) = [10, 20] \<and> next_context (bats ! 1) = [50] \<and>
     prev_context (bats ! 2) = [30, 40] \<and> next_context (bats ! 2) = []"
proof -
  let ?xs = "[10, 20, 30, 40, 50 :: nat]"
  obtain bats where b: "create_batches ?xs 2 2 = Inr bats"
    and c: "\<And>k. k < length bats \<Longrightarrow>
        (let b = bats ! k; s = nat (start_index b); e = nat (end_index b) in
           prev_context b = drop (s - nat 2) (take s ?xs) \<and>
           next_context b = take (nat 2) (drop (Suc e) ?xs))"
    and h: "bats \<noteq> [] \<longrightarrow> prev_context (hd bats) = []"
    using create_batches_context[of 2 2 ?xs] by (auto simp: Let_def)
  have "create_batches ?xs 2 2 = Inr (batches_from ?xs 2 2 0)"
    by (simp add: create_batches_def)
  with b have bats: "bats = batches_from ?xs 2 2 0"
    by simp
  have idx: "length bats = 3" "cues (hd bats) = [10, 20]"
    "start_index (bats ! 0) = 0" "end_index (bats ! 0) = 1"
    "start_index (bats ! 1) = 2" "end_index (bats ! 1) = 3"
    "start_index (bats ! 2) = 4" "end_index (bats ! 2) = 4"
    unfolding bats by (simp_all add: batches_from.simps py_slice_def Let_def)
  have "prev_context (hd bats) = []"
    using h idx(1) by auto
  moreover have "next_context (bats ! 0) = [30, 40]"
    using c[of 0] idx by (simp add: Let_def numeral_2_eq_2)
  moreover have "bats ! 0 = hd bats"
    using idx(1) by (cases bats) simp_all
  moreover have "prev_context (bats ! 1) = [10, 20] \<and> next_context (bats ! 1) = [50]"
    using c[of 1] idx by (simp add: Let_def numeral_2_eq_2)
  moreover have "prev_context (bats ! 2) = [30, 40] \<and> next_context (bats ! 2) = []"
    using c[of 2] idx by (simp add: Let_def numeral_2_eq_2)
  ultimately show ?thesis
    using b idx(1,2) by auto
qed

subsection \<open>The response parser\<close>

lemma is_digit_iff: "is_digit c \<longleftrightarrow> (\<exists>z\<in>set decimal_zeros. z \<le> c \<and> c < z + 10)"
  by (auto simp: is_digit_def digit_val_def find_None_iff)

lemma digit_not_space: "is_digit c \<Longrightarrow> \<not> is_space c"
  unfolding is_digit_iff decimal_zeros_def is_space_def by (elim bexE) (simp, linarith)

lemma digit_not_sign: "is_digit c \<Longrightarrow> c \<noteq> 45 \<and> c \<noteq> 43"
  unfolding is_digit_iff decimal_zeros_def by (elim bexE) (simp, linarith)


lemma int_digits_all_digits: "list_all is_digit ds \<Longrightarrow> \<exists>n. int_digits acc ds = Some n"
  by (induction ds arbitrary: acc) (auto simp: is_digit_def)

lemma strip_int_space_digits:
  assumes "ds \<noteq> []" "list_all is_digit ds"
  shows "rev (dropWhile int_space (rev (dropWhile int_space ds))) = ds"
proof -
  have "\<not> int_space (hd ds)" "\<not> int_space (last ds)"
    using assms by (auto simp: int_space_def list_all_iff digit_not_space)
  then have "dropWhile int_space ds = ds" "dropWhile int_space (rev ds) = rev ds"
    using assms(1) by (simp_all add: dropWhile_eq_self_iff hd_rev)
  then show ?thesis
    by simp
qed

lemma filter_all_digits: "list_all is_digit ds \<Longrightarrow> filter is_digit ds = ds"
  by (simp add: list_all_iff)

lemma py_int_all_digits:
  assumes "ds \<noteq> []" "list_all is_digit ds" "length ds \<le> MAX_STR_DIGITS"
  shows "\<exists>n. py_int ds = Some (int n)"
proof -
  obtain c cs where ds: "ds = c # cs"
    using assms(1) by (cases ds) auto
  then have c: "is_digit c" "list_all is_digit cs"
    using assms(2) by simp_all
  obtain d where d: "digit_val c = Some d"
    using c(1) by (auto simp: is_digit_def)
  obtain n where n: "int_digits d cs = Some n"
    using int_digits_all_digits[OF c(2)] by blast
  have "\<not> MAX_STR_DIGITS < length (filter is_digit ds)"
    using assms(3) by (simp add: filter_all_digits[OF assms(2)])
  then have "py_int ds = Some (int n)"
    using digit_not_sign[OF c(1)] d n
    by (simp add: py_int_def strip_int_space_digits[OF assms(1,2)] Let_def) (simp add: ds)
  then show ?thesis ..
qed

lemma py_int_too_long:
  assumes "list_all is_digit ds" "MAX_STR_DIGITS < length ds"
  shows "py_int ds = None"
proof -
  have ne: "ds \<noteq> []"
    using assms(2) by auto
  then have "\<not> (hd ds = 45 \<or> hd ds = 43)"
    using assms(1) digit_not_sign[of "hd ds"] by (cases ds) auto
  moreover have "MAX_STR_DIGITS < length (filter is_digit ds)"
    using assms(2) by (simp add: filter_all_digits[OF assms(1)])
  ultimately show ?thesis
    by (simp add: py_int_def strip_int_space_digits[OF ne assms(1)] Let_def)
qed

lemma match_numbered_group1:
  assumes "match_numbered s = Some (g1, g2)"
  shows "g1 \<noteq> [] \<and> list_all is_digit g1"
proof -
  define d where "d = takeWhile is_digit (dropWhile is_space s)"
  have "d \<noteq> []" "g1 = d"
    using assms unfolding match_numbered_def Let_def d_def[symmetric]
    by (simp_all split: if_splits list.splits)
  moreover have "list_all is_digit d"
    by (auto simp: d_def list_all_iff dest: set_takeWhileD)
  ultimately show ?thesis
    by simp
qed

lemma line_entry_matched:
  assumes "match_numbered (strip line) = Some (g1, g2)"
  shows "length g1 \<le> MAX_STR_DIGITS \<Longrightarrow>
           \<exists>n. line_entry line = Some (Inr (int n, unquote (strip g2)))"
    and "MAX_STR_DIGITS < length g1 \<Longrightarrow> line_entry line = Some (Inl ValueError)"
proof -
  note g = match_numbered_group1[OF assms]
  show "\<exists>n. line_entry line = Some (Inr (int n, unquote (strip g2)))"
    if le: "length g1 \<le> MAX_STR_DIGITS"
  proof -
    obtain n where "py_int g1 = Some (int n)"
      using py_int_all_digits[of g1] g le by auto
    then show ?thesis
      using assms by (auto simp: line_entry_def)
  qed
  show "line_entry line = Some (Inl ValueError)" if "MAX_STR_DIGITS < length g1"
    using py_int_too_long[of g1] g that assms by (simp add: line_entry_def)
qed


lemma pad_placeholders_eq:
  "pad_placeholders ts n = ts @ replicate (nat (n - int (length ts))) []"
proof (induction ts n rule: pad_placeholders.induct)
  case (1 ts n)
  show ?case
  proof (cases "int (length ts) < n")
    case True
    then have "nat (n - int (length ts)) = Suc (nat (n - int (length (ts @ [[]]))))"
      by simp
    then show ?thesis
      using 1 True by (subst pad_placeholders.simps) (simp add: replicate_app_Cons_same)
  next
    case False
    then show ?thesis
      by (subst pad_placeholders.simps) simp
  qed
qed

lemma store_translation_pos:
  assumes "1 \<le> num"
  shows "store_translation ts num t =
           Inr (if length ts < nat num then ts @ replicate (nat num - 1 - length ts) [] @ [t]
                else ts[nat num - 1 := t])"
proof (cases "length ts < nat num")
  case True
  then have "nat (num - 1 - int (length ts)) = nat num - 1 - length ts"
    by linarith
  then show ?thesis
    using True assms by (simp add: store_translation_def pad_placeholders_eq Let_def)
next
  case False
  then have "nat (num - 1 - int (length ts)) = 0" "nat (num - 1) = nat num - 1"
    "\<not> int (length ts) < num" "num - 1 < int (length ts)"
    using assms by linarith+
  then show ?thesis
    using False assms by (simp add: store_translation_def pad_placeholders_eq Let_def py_setitem_def)
qed



lemma entries_of_Nil: "entries_of [] = []"
  by (simp add: entries_of_def map_filter_def)

lemma entries_of_Cons:
  "entries_of (l # ls) =
     (case line_entry l of Some (Inr e) \<Rightarrow> e # entries_of ls | _ \<Rightarrow> entries_of ls)"
  by (simp add: entries_of_def map_filter_def split: option.splits sum.splits)












lemma is_digit_ascii_iff: "c < 128 \<Longrightarrow> is_digit c \<longleftrightarrow> 48 \<le> c \<and> c \<le> 57"
  unfolding is_digit_iff decimal_zeros_def by auto

lemmas parser_eval =
  of_ascii_def strip_def is_space_def is_digit_ascii_iff digit_val_def decimal_zeros_def
  py_int_def int_space_def match_numbered_def line_entry_def unquote_def startswith_def
  endswith_def py_slice_def store_translation_def pad_placeholders.simps py_setitem_def
  parse_translation_response_def Let_def entries_of_Nil entries_of_Cons numbered_lines_def
  split_def MAX_STR_DIGITS_def

lemma unquote_pair:
  assumes "q = 34 \<or> q = 39"
  shows "unquote (q # m @ [q]) = m"
proof -
  have "py_slice (q # m @ [q]) 1 (- 1) = m"
    by (simp add: py_slice_def Let_def)
  then show ?thesis
    using assms by (auto simp: unquote_def startswith_def endswith_def)
qed









text \<open>
  C3. The claim that the parser returns \<open>expected_count\<close> strings for every response
  fails on the code: on the response \<^verbatim>\<open>0. a\<close>, \<^verbatim>\<open>1. b\<close> (two lines) with
  \<open>expected_count = 2\<close> the parser raises \<^verbatim>\<open>IndexError\<close>. (For responses whose numbers
  are all at least 1 and of at most 4300 digits, \<open>parse_translation_response_placed\<close> gives the result the claim
  describes.)
\<close>

theorem parse_translation_response_zero_raises:
  "parse_translation_response (of_ascii ''0. a\<newline>1. b'') 2 = Inl IndexError"
  by (simp add: parser_eval cong: prod.case_cong_weak)

text \<open>
  C10. The claim that the entry \<open>k - 1\<close> is the text of the last line numbered \<open>k\<close> fails
  on the code when a line numbered 0 follows: on \<^verbatim>\<open>1. a\<close>, \<^verbatim>\<open>1. b\<close>, \<^verbatim>\<open>0. c\<close> with
  \<open>expected_count = 1\<close> the line numbered 0 is written to \<^verbatim>\<open>translations[-1]\<close>, and the
  parser returns \<^verbatim>\<open>["c"]\<close> where the last line numbered 1 carries \<^verbatim>\<open>b\<close>.
\<close>

theorem parse_translation_response_zero_overwrites:
  "parse_translation_response (of_ascii ''1. a\<newline>1. b\<newline>0. c'') 1 = Inr [of_ascii ''c'']"
  by (simp add: parser_eval cong: prod.case_cong_weak)

text \<open>
  C8. When the text captured from a matched line (after \<^verbatim>\<open>strip()\<close>) is wrapped in a pair
  of double quotes or in a pair of single quotes, the stored translation is the text
  between them: the line yields the entry with that text, and storing the entry of a
  line numbered \<open>num \<ge> 1\<close> puts it at position \<open>num - 1\<close>. (A line whose number has more
  than 4300 digits stores nothing: \<^verbatim>\<open>int(match.group(1))\<close> raises \<^verbatim>\<open>ValueError\<close> before
  the text is looked at.)
\<close>

theorem quotes_stripped:
  assumes "match_numbered (strip line) = Some (g1, g2)"
    and "strip g2 = q # m @ [q]"
    and "q = 34 \<or> q = 39"
  shows "(length g1 \<le> MAX_STR_DIGITS \<longrightarrow>
           (\<exists>num. 0 \<le> num \<and> line_entry line = Some (Inr (num, m)) \<and>
              (1 \<le> num \<longrightarrow>
                 (\<forall>ts. \<exists>ts'. store_translation ts num m = Inr ts' \<and>
                    ts' ! (nat num - 1) = m)))) \<and>
         (MAX_STR_DIGITS < length g1 \<longrightarrow> line_entry line = Some (Inl ValueError))"
proof (intro conjI impI)
  assume "length g1 \<le> MAX_STR_DIGITS"
  then obtain n where e: "line_entry line = Some (Inr (int n, m))"
    using line_entry_matched(1)[OF assms(1)] assms(2,3) by (auto simp: unquote_pair)
  have "\<exists>ts'. store_translation ts (int n) m = Inr ts' \<and> ts' ! (nat (int n) - 1) = m"
    if "1 \<le> int n" for ts
  proof (cases "length ts < n")
    case True
    then have "\<not> n - 1 < length ts" "n - 1 - length ts = n - 1 - length ts"
      by linarith+
    then show ?thesis
      using that True by (simp add: store_translation_pos nth_append)
  next
    case False
    then have "n - 1 < length ts"
      using that by linarith
    then show ?thesis
      using that False by (simp add: store_translation_pos)
  qed
  then show "\<exists>num. 0 \<le> num \<and> line_entry line = Some (Inr (num, m)) \<and>
      (1 \<le> num \<longrightarrow>
         (\<forall>ts. \<exists>ts'. store_translation ts num m = Inr ts' \<and> ts' ! (nat num - 1) = m))"
    using e by (intro exI[of _ "int n"]) simp
next
  assume "MAX_STR_DIGITS < length g1"
  then show "line_entry line = Some (Inl ValueError)"
    by (rule line_entry_matched(2)[OF assms(1)])
qed

theorem quotes_stripped_witness:
  "line_entry (of_ascii ''2. \"hello\"'') = Some (Inr (2, of_ascii ''hello'')) \<and>
   parse_translation_response (of_ascii ''2. \"hello\"'') 2 = Inr [[], of_ascii ''hello'']"
proof -
  let ?line = "of_ascii ''2. \"hello\"''"
  have m: "match_numbered (strip ?line) = Some (of_ascii ''2'', of_ascii ''\"hello\"'')"
    by (simp add: parser_eval cong: prod.case_cong_weak)
  have s: "strip (of_ascii ''\"hello\"'') = 34 # of_ascii ''hello'' @ [34]"
    by (simp add: parser_eval cong: prod.case_cong_weak)
  have "length (of_ascii ''2'') \<le> MAX_STR_DIGITS"
    by (simp add: of_ascii_def MAX_STR_DIGITS_def)
  then obtain num where "line_entry ?line = Some (Inr (num, of_ascii ''hello''))"
    using quotes_stripped[OF m s] by auto
  moreover have "line_entry ?line = Some (Inr (2, of_ascii ''hello''))"
    by (simp add: parser_eval cong: prod.case_cong_weak)
  moreover have "parse_translation_response ?line 2 = Inr [[], of_ascii ''hello'']"
    by (simp add: parser_eval cong: prod.case_cong_weak)
  ultimately show ?thesis
    by simp
qed

subsection \<open>The batch orchestrator\<close>

lemma wait_time_values: "wait_time 1 = 1" "wait_time 2 = 2" "3 \<le> k \<Longrightarrow> wait_time k = 4"
  "wait_time (Suc 0) = 1" "wait_time (Suc (Suc 0)) = 2"
  by (simp_all add: wait_time_def RETRY_BACKOFF_def min_def numeral_2_eq_2)

lemma wait_time_mono:
  assumes "1 \<le> j" "j \<le> k"
  shows "wait_time j \<le> wait_time k"
proof -
  have v: "wait_time n = (if n = 1 then 1 else if n = 2 then 2 else 4)" if "1 \<le> n" for n
  proof -
    have "n = 1 \<or> n = 2 \<or> 3 \<le> n"
      using that by arith
    then show ?thesis
      by (auto simp: wait_time_values)
  qed
  show ?thesis
    using assms by (auto simp: v)
qed

lemma retry_loop_stop:
  "\<not> attempt < MAX_RETRIES \<Longrightarrow> retry_loop provider n attempt st = (Inr (replicate n []), st)"
  by (subst retry_loop.simps) simp

lemma retry_loop_fail:
  assumes "attempt < MAX_RETRIES" "failed (provider (calls st))"
  shows "retry_loop provider n attempt st =
           retry_loop provider n (Suc attempt)
             (st\<lparr>sleeps := (if 0 < attempt then sleeps st @ [wait_time attempt] else sleeps st),
                 calls := Suc (calls st)\<rparr>)"
  using assms by (subst retry_loop.simps) (auto simp: failed_def Let_def split: option.splits)

lemma retry_loop_ok:
  assumes "attempt < MAX_RETRIES" "provider (calls st) = Some r" "r \<noteq> []"
  shows "retry_loop provider n attempt st =
           (parse_translation_response r (int n),
            st\<lparr>sleeps := (if 0 < attempt then sleeps st @ [wait_time attempt] else sleeps st),
                calls := Suc (calls st)\<rparr>)"
  using assms by (subst retry_loop.simps) (auto simp: Let_def)

lemma retry_exhausted:
  assumes "\<forall>i<MAX_RETRIES. failed (provider (calls st + i))"
  shows "translate_batch_with_retry provider batch st =
           (Inr (replicate (length (cues batch)) []),
            st\<lparr>sleeps := sleeps st @ [1, 2], calls := calls st + MAX_RETRIES\<rparr>)"
proof -
  have f: "failed (provider (calls st))" "failed (provider (Suc (calls st)))"
    "failed (provider (Suc (Suc (calls st))))"
    using assms[rule_format, of 0] assms[rule_format, of 1] assms[rule_format, of 2]
    by (simp_all add: MAX_RETRIES_def)
  show ?thesis
    unfolding translate_batch_with_retry_def
    using f
    by (simp add: retry_loop_fail retry_loop_stop MAX_RETRIES_def wait_time_values numeral_2_eq_2
        numeral_3_eq_3)
qed

lemma retry_succeeds:
  assumes "j < MAX_RETRIES" "\<forall>i<j. failed (provider (calls st + i))"
    and "provider (calls st + j) = Some r" "r \<noteq> []"
  shows "translate_batch_with_retry provider batch st =
           (parse_translation_response r (int (length (cues batch))),
            st\<lparr>sleeps := sleeps st @ map wait_time [1..<Suc j], calls := calls st + Suc j\<rparr>)"
proof -
  have "j = 0 \<or> j = 1 \<or> j = 2"
    using assms(1) unfolding MAX_RETRIES_def by arith
  then consider "j = 0" | "j = 1" | "j = 2"
    by blast
  then show ?thesis
  proof cases
    case 1
    then show ?thesis
      unfolding translate_batch_with_retry_def
      using assms by (simp add: retry_loop_ok MAX_RETRIES_def)
  next
    case 2
    then have "failed (provider (calls st))" "provider (Suc (calls st)) = Some r"
      using assms by simp_all
    then show ?thesis
      unfolding translate_batch_with_retry_def
      using 2 assms(4) by (simp add: retry_loop_fail retry_loop_ok MAX_RETRIES_def)
  next
    case 3
    then have "failed (provider (calls st))" "failed (provider (Suc (calls st)))"
      "provider (Suc (Suc (calls st))) = Some r"
      using assms(2)[rule_format, of 0] assms(2)[rule_format, of 1] assms(3) by simp_all
    then show ?thesis
      unfolding translate_batch_with_retry_def
      using 3 assms(4)
      by (simp add: retry_loop_fail retry_loop_ok MAX_RETRIES_def numeral_2_eq_2 upt_rec)
  qed
qed

lemma fallback_step:
  "fallback (h(a := (h a)\<lparr>translated_text := Some (text (h a))\<rparr>)) refs = fallback h (a # refs)"
  "fallback (\<lambda>x. if x = a then (h a)\<lparr>translated_text := Some (text (h a))\<rparr> else h x) refs
     = fallback h (a # refs)"
  by (rule ext, simp add: fallback_def)+

lemma fallback_append: "fallback (fallback h xs) ys = fallback h (xs @ ys)"
  by (rule ext) (simp add: fallback_def)

lemma fallback_Nil: "fallback h [] = h"
  by (rule ext) (simp add: fallback_def)

lemma apply_translations_empty:
  "i + m \<le> length refs \<Longrightarrow>
   apply_translations refs i (replicate m []) st =
     Inr (st\<lparr>heap := fallback (heap st) (take m (drop i refs)),
             failed_batches := failed_batches st + m\<rparr>)"
proof (induction m arbitrary: i st)
  case 0
  then show ?case
    by (simp add: fallback_Nil)
next
  case (Suc m)
  then have i: "i < length refs" "Suc i + m \<le> length refs"
    by simp_all
  have t: "take (Suc m) (drop i refs) = refs ! i # take m (drop (Suc i) refs)"
    using i(1) by (simp add: Cons_nth_drop_Suc[symmetric])
  show ?case
    using i(1) by (simp add: Suc.IH[OF i(2)] Let_def t fallback_step)
qed

lemma translate_batches_fallback_step:
  assumes "\<forall>i<MAX_RETRIES. failed (provider (calls st + i))"
  shows "translate_batches provider (batch # rest) st =
           translate_batches provider rest
             (st\<lparr>heap := fallback (heap st) (cues batch),
                 failed_batches := failed_batches st + length (cues batch),
                 sleeps := sleeps st @ [1, 2, RATE_LIMIT_DELAY],
                 calls := calls st + MAX_RETRIES\<rparr>)"
proof -
  let ?st1 = "st\<lparr>sleeps := sleeps st @ [1, 2], calls := calls st + MAX_RETRIES\<rparr>"
  have "apply_translations (cues batch) 0 (replicate (length (cues batch)) []) ?st1 =
      Inr (?st1\<lparr>heap := fallback (heap ?st1) (cues batch),
             failed_batches := failed_batches ?st1 + length (cues batch)\<rparr>)"
    using apply_translations_empty[of 0 "length (cues batch)" "cues batch" ?st1] by simp
  moreover have "(?st1\<lparr>heap := fallback (heap ?st1) (cues batch),
             failed_batches := failed_batches ?st1 + length (cues batch)\<rparr>)
       \<lparr>sleeps := sleeps ?st1 @ [RATE_LIMIT_DELAY]\<rparr> =
     st\<lparr>heap := fallback (heap st) (cues batch),
                 failed_batches := failed_batches st + length (cues batch),
                 sleeps := sleeps st @ [1, 2, RATE_LIMIT_DELAY],
                 calls := calls st + MAX_RETRIES\<rparr>"
    by (cases st) simp
  ultimately show ?thesis
    using retry_exhausted[OF assms, of batch] by (cases st) simp
qed

lemma translate_batches_all_fail:
  assumes "\<forall>k. failed (provider k)"
  shows "translate_batches provider bats st =
           Inr (st\<lparr>heap := fallback (heap st) (concat (map cues bats)),
                   failed_batches := failed_batches st + length (concat (map cues bats)),
                   sleeps := sleeps st @ concat (replicate (length bats) [1, 2, RATE_LIMIT_DELAY]),
                   calls := calls st + MAX_RETRIES * length bats\<rparr>)"
proof (induction bats arbitrary: st)
  case Nil
  then show ?case
    by (simp add: fallback_Nil)
next
  case (Cons batch bats)
  have "\<forall>i<MAX_RETRIES. failed (provider (calls st + i))"
    using assms by simp
  then have "translate_batches provider (batch # bats) st =
      translate_batches provider bats
             (st\<lparr>heap := fallback (heap st) (cues batch),
                 failed_batches := failed_batches st + length (cues batch),
                 sleeps := sleeps st @ [1, 2, RATE_LIMIT_DELAY],
                 calls := calls st + MAX_RETRIES\<rparr>)"
    by (rule translate_batches_fallback_step)
  then show ?case
    unfolding Cons.IH by (cases st) (simp add: fallback_append)
qed

lemma fallback_all:
  "map (fallback (\<lambda>a. xs ! a) [0..<length xs]) [0..<length xs] =
     map (\<lambda>c. c\<lparr>translated_text := Some (text c)\<rparr>) xs"
  by (rule nth_equalityI) (simp_all add: fallback_def)

lemma translate_cues_all_fail:
  assumes "\<forall>k. failed (provider k)" "0 < batch_size"
  shows "\<exists>st. translate_cues provider cue_list batch_size context_size =
             Inr (map (\<lambda>c. c\<lparr>translated_text := Some (text c)\<rparr>) cue_list, st) \<and>
           failed_batches st = length cue_list"
proof -
  let ?refs = "[0..<length cue_list]"
  define bats where "bats = batches_from ?refs batch_size context_size 0"
  have cb: "create_batches ?refs batch_size context_size = Inr bats"
    using assms(2) by (simp add: create_batches_def bats_def)
  have cover: "concat (map cues bats) = ?refs"
    using batches_from_concat[OF assms(2) order_refl, of ?refs context_size]
    by (simp add: bats_def)
  show ?thesis
    unfolding translate_cues_def cb
    by (simp add: translate_batches_all_fail[OF assms(1)] cover fallback_all)
qed


text \<open>
  C4. When the provider fails on each of the \<open>MAX_RETRIES\<close> calls made for a batch
  (it returns \<open>None\<close> or an empty text), \<open>translate_batch_with_retry\<close> makes exactly
  \<open>MAX_RETRIES\<close> calls, sleeps 1 and then 2 seconds before the second and the third, and
  returns one empty string for each cue. The loop of \<open>translate\<close> then sets
  \<open>translated_text\<close> of every cue of the batch to its source text, adds the number of
  these cues to the failure counter and goes on with the next batch; with a provider that
  always fails the whole run ends without error and every cue carries its source text.
  A retry happens only after a failed call: when a call returns a non-empty text, the
  result is what the parser makes of this text, whatever the number of translations
  found, and no further call is made. The delay before attempt \<open>k + 1\<close> is entry
  \<open>min (k - 1) 2\<close> of the schedule \<open>[1, 2, 4]\<close>: it never decreases and stays at the last
  value, 4, from the third retry on.
\<close>

theorem retry_and_fallback:
  "(\<forall>provider batch st.
      (\<forall>i<MAX_RETRIES. failed (provider (calls st + i))) \<longrightarrow>
      translate_batch_with_retry provider batch st =
        (Inr (replicate (length (cues batch)) []),
         st\<lparr>sleeps := sleeps st @ [1, 2], calls := calls st + MAX_RETRIES\<rparr>)) \<and>
   (\<forall>provider batch rest st.
      (\<forall>i<MAX_RETRIES. failed (provider (calls st + i))) \<longrightarrow>
      translate_batches provider (batch # rest) st =
        translate_batches provider rest
          (st\<lparr>heap := fallback (heap st) (cues batch),
              failed_batches := failed_batches st + length (cues batch),
              sleeps := sleeps st @ [1, 2, RATE_LIMIT_DELAY],
              calls := calls st + MAX_RETRIES\<rparr>)) \<and>
   (\<forall>provider cue_list batch_size context_size.
      (\<forall>k. failed (provider k)) \<and> 0 < batch_size \<longrightarrow>
      (\<exists>st. translate_cues provider cue_list batch_size context_size =
               Inr (map (\<lambda>c. c\<lparr>translated_text := Some (text c)\<rparr>) cue_list, st) \<and>
            failed_batches st = length cue_list)) \<and>
   (\<forall>provider batch st j r.
      j < MAX_RETRIES \<and> (\<forall>i<j. failed (provider (calls st + i))) \<and>
      provider (calls st + j) = Some r \<and> r \<noteq> [] \<longrightarrow>
      translate_batch_with_retry provider batch st =
        (parse_translation_response r (int (length (cues batch))),
         st\<lparr>sleeps := sleeps st @ map wait_time [1..<Suc j], calls := calls st + Suc j\<rparr>)) \<and>
   (\<forall>j k. 1 \<le> j \<and> j \<le> k \<longrightarrow> wait_time j \<le> wait_time k) \<and>
   wait_time 1 = 1 \<and> wait_time 2 = 2 \<and> (\<forall>k. 3 \<le> k \<longrightarrow> wait_time k = last RETRY_BACKOFF)"
proof -
  have "wait_time k = last RETRY_BACKOFF" if "3 \<le> k" for k
    using that by (simp add: wait_time_values RETRY_BACKOFF_def)
  then show ?thesis
    using retry_exhausted translate_batches_fallback_step translate_cues_all_fail retry_succeeds
      wait_time_mono wait_time_values(1,2)
    by (intro conjI allI impI) blast+
qed


theorem retry_and_fallback_witness:
  "(\<exists>st. translate_cues (\<lambda>k. None)
           [\<lparr>index = 1, start_time = 0, end_time = 900, text = of_ascii ''a'', translated_text = None\<rparr>,
            \<lparr>index = 2, start_time = 1000, end_time = 1900, text = of_ascii ''b'', translated_text = None\<rparr>,
            \<lparr>index = 3, start_time = 2000, end_time = 2900, text = of_ascii ''c'', translated_text = None\<rparr>]
           2 1 =
         Inr ([\<lparr>index = 1, start_time = 0, end_time = 900, text = of_ascii ''a'',
                 translated_text = Some (of_ascii ''a'')\<rparr>,
               \<lparr>index = 2, start_time = 1000, end_time = 1900, text = of_ascii ''b'',
                 translated_text = Some (of_ascii ''b'')\<rparr>,
               \<lparr>index = 3, start_time = 2000, end_time = 2900, text = of_ascii ''c'',
                 translated_text = Some (of_ascii ''c'')\<rparr>], st) \<and>
         failed_batches st = 3) \<and>
   translate_batch_with_retry (\<lambda>k. if k = 1 then Some (of_ascii ''1. x'') else None)
       \<lparr>cues = [0, 1], prev_context = [], next_context = [2], start_index = 0, end_index = 1\<rparr>
       \<lparr>heap = (\<lambda>a. \<lparr>index = 1, start_time = 0, end_time = 900, text = of_ascii ''a'',
                       translated_text = None\<rparr>),
        failed_batches = 0, calls = 0, sleeps = []\<rparr> =
     (Inr [of_ascii ''x'', []],
      \<lparr>heap = (\<lambda>a. \<lparr>index = 1, start_time = 0, end_time = 900, text = of_ascii ''a'',
                       translated_text = None\<rparr>),
        failed_batches = 0, calls = 2, sleeps = [1]\<rparr>)"
proof -
  note t = retry_and_fallback
  have A: "(\<forall>k. failed (provider k)) \<and> 0 < batch_size \<Longrightarrow>
      \<exists>st. translate_cues provider cue_list batch_size context_size =
               Inr (map (\<lambda>c. c\<lparr>translated_text := Some (text c)\<rparr>) cue_list, st) \<and>
            failed_batches st = length cue_list" for provider cue_list batch_size context_size
    using t by blast
  have B: "j < MAX_RETRIES \<and> (\<forall>i<j. failed (provider (calls st + i))) \<and>
      provider (calls st + j) = Some r \<and> r \<noteq> [] \<Longrightarrow>
      translate_batch_with_retry provider batch st =
        (parse_translation_response r (int (length (cues batch))),
         st\<lparr>sleeps := sleeps st @ map wait_time [1..<Suc j], calls := calls st + Suc j\<rparr>)"
    for provider batch st j r
    using t by blast
  have p: "parse_translation_response (of_ascii ''1. x'') 2 = Inr [of_ascii ''x'', []]"
    by (simp add: parser_eval cong: prod.case_cong_weak)
  have "1 < MAX_RETRIES" "wait_time 1 = 1" "of_ascii ''1. x'' \<noteq> []"
    using t by (simp_all add: MAX_RETRIES_def of_ascii_def)
  then show ?thesis
    using A[of "\<lambda>k. None" 2
        "[\<lparr>index = 1, start_time = 0, end_time = 900, text = of_ascii ''a'', translated_text = None\<rparr>,
          \<lparr>index = 2, start_time = 1000, end_time = 1900, text = of_ascii ''b'', translated_text = None\<rparr>,
          \<lparr>index = 3, start_time = 2000, end_time = 2900, text = of_ascii ''c'', translated_text = None\<rparr>]" 1]
      B[of 1 "\<lambda>k. if k = 1 then Some (of_ascii ''1. x'') else None"
         "\<lparr>heap = (\<lambda>a. \<lparr>index = 1, start_time = 0, end_time = 900, text = of_ascii ''a'',
                       translated_text = None\<rparr>),
           failed_batches = 0, calls = 0, sleeps = []\<rparr>" "of_ascii ''1. x''"
         "\<lparr>cues = [0, 1], prev_context = [], next_context = [2], start_index = 0, end_index = 1\<rparr>"]
    by (simp add: failed_def p numeral_3_eq_3)
qed

subsection \<open>Parsing subtitle documents\<close>

lemma split_from_not_Nil: "split_from sep cur s \<noteq> []"
  by (induction s arbitrary: cur) simp_all









subsection \<open>Round trip: strings and numbers\<close>

lemma strip_id:
  assumes "s \<noteq> []" "\<not> is_space (hd s)" "\<not> is_space (last s)"
  shows "strip s = s"
proof -
  have "dropWhile is_space s = s"
    using assms by (cases s) simp_all
  moreover have "dropWhile is_space (rev s) = rev s"
    using assms by (cases "rev s") (simp_all add: hd_rev[symmetric])
  ultimately show ?thesis
    by (simp add: strip_def)
qed

lemma dropWhile_shorter: "xs \<noteq> [] \<Longrightarrow> P (hd xs) \<Longrightarrow> length (dropWhile P xs) < length xs"
  by (cases xs) (simp_all add: le_imp_less_Suc length_dropWhile_le)

lemma length_strip_le: "length (strip s) \<le> length (dropWhile is_space s)"
  by (simp add: strip_def) (metis length_dropWhile_le length_rev)

lemma strip_idD:
  assumes "strip s = s" "s \<noteq> []"
  shows "\<not> is_space (hd s)" "\<not> is_space (last s)"
proof -
  let ?d = "dropWhile is_space s"
  show "\<not> is_space (hd s)"
  proof
    assume "is_space (hd s)"
    then have "length ?d < length s"
      using assms(2) by (rule dropWhile_shorter[rotated])
    then show False
      using length_strip_le[of s] assms(1) by simp
  qed
  show "\<not> is_space (last s)"
  proof
    assume sp: "is_space (last s)"
    have dn: "?d \<noteq> []"
    proof
      assume a: "?d = []"
      have "strip s = rev (dropWhile is_space (rev ?d))"
        by (simp only: strip_def)
      then have "strip s = []"
        unfolding a by simp
      then show False
        using assms by simp
    qed
    have "s = takeWhile is_space s @ ?d"
      by simp
    then have "last s = last ?d"
      using dn by (metis last_appendR)
    then have "is_space (hd (rev ?d))"
      using sp dn by (simp add: hd_rev)
    then have "length (dropWhile is_space (rev ?d)) < length (rev ?d)"
      using dn by (intro dropWhile_shorter) simp_all
    then have "length (strip s) < length ?d"
      by (simp add: strip_def)
    moreover have "length ?d \<le> length s"
      by (rule length_dropWhile_le)
    ultimately show False
      using assms(1) by simp
  qed
qed

lemma strip_snoc_lf:
  assumes "s \<noteq> []" "\<not> is_space (hd s)" "\<not> is_space (last s)"
  shows "strip (s @ [10]) = s"
proof -
  have "dropWhile is_space (s @ [10]) = s @ [10]"
    using assms by (cases s) simp_all
  moreover have "dropWhile is_space (10 # rev s) = rev s"
    using assms by (simp add: is_space_def dropWhile_eq_self_iff hd_rev)
  ultimately show ?thesis
    by (simp add: strip_def)
qed

lemma split_from_line:
  "sep \<notin> set l \<Longrightarrow> split_from sep cur (l @ sep # rest) = (cur @ l) # split_from sep [] rest"
  by (induction l arbitrary: cur) simp_all

lemma join_Cons: "ps \<noteq> [] \<Longrightarrow> join sep (p # ps) = p @ sep @ join sep ps"
  by (cases ps) simp_all

lemma join_split_from: "join [sep] (split_from sep cur s) = cur @ s"
  by (induction s arbitrary: cur) (simp_all add: join_Cons split_from_not_Nil)

lemma join_split: "join [sep] (split sep s) = s"
  by (simp add: split_def join_split_from)

lemma split_not_Nil: "split sep s \<noteq> []"
  by (simp add: split_def split_from_not_Nil)

lemma replace_crlf_line:
  "13 \<notin> set l \<Longrightarrow>
   replace [13, 10] [10] (l @ 13 # 10 # rest) = l @ 10 # replace [13, 10] [10] rest"
proof (induction l)
  case Nil
  then show ?case
    by (subst replace.simps) (simp add: startswith_def)
next
  case (Cons c l)
  then show ?case
    by (subst replace.simps) (simp add: startswith_def)
qed

lemma replace_crlf_join:
  "\<forall>l\<in>set ls. 13 \<notin> set l \<Longrightarrow> replace [13, 10] [10] (join [13, 10] ls) = join [10] ls"
proof (induction ls)
  case Nil
  then show ?case
    by (simp add: replace.simps)
next
  case (Cons p ps)
  show ?case
  proof (cases ps)
    case Nil
    have "replace [13, 10] [10] p = p"
      using Cons.prems by (intro replace_no_occurrence) auto
    then show ?thesis
      using Nil by simp
  next
    case (Cons q qs)
    then show ?thesis
      using Cons.prems Cons.IH by (simp add: replace_crlf_line)
  qed
qed

lemma int_digits_append:
  "list_all is_digit xs \<Longrightarrow>
   int_digits acc (xs @ ys) = (case int_digits acc xs of Some a \<Rightarrow> int_digits a ys | None \<Rightarrow> None)"
  by (induction xs arbitrary: acc) (auto simp: is_digit_def)

lemma digits_value:
  "list_all is_digit (digits n) \<and> digits n \<noteq> [] \<and>
   (\<forall>c\<in>set (digits n). 48 \<le> c \<and> c \<le> 57) \<and>
   int_digits acc (digits n) = Some (acc * 10 ^ length (digits n) + n)"
proof (induction n arbitrary: acc rule: digits.induct)
  case (1 n)
  show ?case
  proof (cases "n < 10")
    case True
    then show ?thesis
      by (simp add: digits_1 is_digit_ascii digit_val_ascii)
  next
    case False
    have d: "digits n = digits (n div 10) @ [48 + n mod 10]"
      using False by (subst digits.simps) simp
    have m: "n mod 10 < 10"
      by simp
    note ih = 1[OF False]
    have "int_digits acc (digits n) =
        Some ((acc * 10 ^ length (digits (n div 10)) + n div 10) * 10 + n mod 10)"
      using ih[of acc] m by (simp add: d int_digits_append digit_val_ascii)
    also have "(acc * 10 ^ length (digits (n div 10)) + n div 10) * 10 + n mod 10 =
        acc * 10 ^ length (digits n) + n"
      by (simp add: d algebra_simps)
    finally show ?thesis
      using ih[of acc] m by (simp add: d is_digit_ascii)
  qed
qed

lemma py_int_py_str:
  assumes "str_digits_ok (int n)"
  shows "py_int (strip (py_str (int n))) = Some (int n)"
proof -
  note v = digits_value[of n 0]
  have f: "\<not> MAX_STR_DIGITS < length (filter is_digit (digits n))"
    using assms v by (simp add: filter_all_digits str_digits_ok_def)
  from v have ns: "\<not> is_space (hd (digits n))" "\<not> is_space (last (digits n))"
    using digit_not_space[of "hd (digits n)"] digit_not_space[of "last (digits n)"]
    by (auto simp: list_all_iff)
  obtain c cs where ds: "digits n = c # cs"
    using v by (cases "digits n") auto
  then obtain d where d: "digit_val c = Some d"
    using v by (auto simp: is_digit_def)
  have "int_digits d cs = Some n"
    using v d by (simp add: ds)
  then have "py_int (digits n) = Some (int n)"
    using v digit_not_sign[of c] d ds f strip_int_space_digits[of "digits n"]
    by (simp add: py_int_def Let_def)
  then show ?thesis
    using v ns by (simp add: py_str_def strip_id)
qed

lemma ms_decompose:
  assumes "(n::nat) < 360000000"
  shows "\<exists>H M S F. H < 100 \<and> M < 60 \<and> S < 60 \<and> F < 1000 \<and> n = (H * 3600 + M * 60 + S) * 1000 + F"
proof -
  define ts where "ts = n div 1000"
  define H M S F where "H = ts div 3600" and "M = ts mod 3600 div 60"
    and "S = ts mod 60" and "F = n mod 1000"
  have "ts < 360000"
    using assms by (simp add: ts_def div_less_iff_less_mult)
  then have "H < 100"
    by (simp add: H_def div_less_iff_less_mult)
  have "ts mod 3600 < 3600"
    by simp
  then have "M < 60"
    by (simp add: M_def div_less_iff_less_mult)
  have b: "H < 100" "M < 60" "S < 60" "F < 1000"
    using \<open>H < 100\<close> \<open>M < 60\<close> by (simp_all add: S_def F_def)
  have "ts mod 3600 mod 60 = ts mod 60"
    by (rule mod_mod_cancel) simp
  then have "ts mod 3600 = M * 60 + S"
    using div_mult_mod_eq[of "ts mod 3600" 60] by (simp only: M_def S_def)
  then have "ts = H * 3600 + M * 60 + S"
    using div_mult_mod_eq[of ts 3600] by (simp only: H_def add.assoc)
  then have "n = (H * 3600 + M * 60 + S) * 1000 + F"
    using div_mult_mod_eq[of n 1000] by (simp only: ts_def F_def)
  with b show ?thesis
    by blast
qed

lemma format_timestamp_range:
  assumes "0 \<le> ms" "ms < 360000000"
  shows "\<exists>H M S F. H < 100 \<and> M < 60 \<and> S < 60 \<and> F < 1000 \<and>
           format_timestamp ms = hms_string H M S 44 F"
proof -
  have "nat ms < 360000000"
    using assms by (simp add: nat_less_iff)
  then obtain H M S F where b: "H < 100" "M < 60" "S < 60" "F < 1000"
    and n: "nat ms = (H * 3600 + M * 60 + S) * 1000 + F"
    using ms_decompose by blast
  have "ms = int (nat ms)"
    using assms(1) by simp
  then have "ms = (int H * 3600 + int M * 60 + int S) * 1000 + int F"
    by (simp only: n) simp
  then have "format_timestamp ms = hms_string H M S 44 F"
    using format_timestamp_hms[OF b] by simp
  with b show ?thesis
    by blast
qed

lemma hms_chars:
  assumes "H < 100" "M < 100" "S < 100" "F < 1000"
  shows "\<forall>c\<in>set (hms_string H M S 44 F). c = 44 \<or> (48 \<le> c \<and> c \<le> 58)"
proof -
  have "H div 10 < 10" "M div 10 < 10" "S div 10 < 10" "F div 100 < 10"
    using assms by (simp_all add: div_less_iff_less_mult)
  moreover have "H mod 10 < 10" "M mod 10 < 10" "S mod 10 < 10" "F div 10 mod 10 < 10" "F mod 10 < 10"
    by simp_all
  ultimately show ?thesis
    unfolding hms_string_def by (simp del: mod_less_divisor)
qed

lemma format_timestamp_chars:
  assumes "0 \<le> ms" "ms < 360000000"
  shows "format_timestamp ms \<noteq> []"
    and "\<forall>c\<in>set (format_timestamp ms). c = 44 \<or> (48 \<le> c \<and> c \<le> 58)"
proof -
  obtain H M S F where b: "H < 100" "M < 60" "S < 60" "F < 1000"
    and f: "format_timestamp ms = hms_string H M S 44 F"
    using format_timestamp_range[OF assms] by blast
  show "format_timestamp ms \<noteq> []"
    by (simp add: f hms_string_def)
  show "\<forall>c\<in>set (format_timestamp ms). c = 44 \<or> (48 \<le> c \<and> c \<le> 58)"
    unfolding f using b by (intro hms_chars) simp_all
qed

lemma tchar_facts:
  assumes "c = 44 \<or> (48 \<le> c \<and> c \<le> 58)"
  shows "\<not> is_space c" "c \<noteq> 45" "c \<noteq> 10" "c \<noteq> 13"
  using assms by (auto simp: is_space_def)

lemma timing_scan_skip:
  "\<forall>c\<in>set r. \<not> is_space c \<and> c \<noteq> 45 \<Longrightarrow> timing_scan g (r @ x) = timing_scan (g @ r) x"
proof (induction r arbitrary: g)
  case Nil
  then show ?case
    by simp
next
  case (Cons c r)
  then have "timing_rest (c # r @ x) = None"
    by (simp add: timing_rest_def startswith_def)
  then show ?case
    using Cons by (cases "r @ x") simp_all
qed

lemma takeWhile_all: "\<forall>c\<in>set xs. P c \<Longrightarrow> takeWhile P xs = xs"
  by (induction xs) simp_all

lemma match_timing_line:
  assumes "a \<noteq> []" "b \<noteq> []"
    and "\<forall>c\<in>set a. c = 44 \<or> (48 \<le> c \<and> c \<le> 58)"
    and "\<forall>c\<in>set b. c = 44 \<or> (48 \<le> c \<and> c \<le> 58)"
  shows "match_timing (a @ [32, 45, 45, 62, 32] @ b) = Some (a, b)"
proof -
  obtain c r where a: "a = c # r"
    using assms(1) by (cases a) auto
  obtain d q where b: "b = d # q"
    using assms(2) by (cases b) auto
  have ns: "\<forall>c\<in>set b. \<not> is_space c"
    using assms(4) tchar_facts(1) by blast
  have r: "\<forall>c\<in>set r. \<not> is_space c \<and> c \<noteq> 45"
    using assms(3) tchar_facts(1,2) unfolding a by (metis list.set_intros(2))
  have sp: "is_space 32" "\<not> is_space 45"
    by (simp_all add: is_space_def)
  have "dropWhile is_space (32 # b) = b"
    using ns sp by (simp add: b)
  moreover have "hd b # takeWhile (\<lambda>c. \<not> is_space c) (tl b) = b"
    using ns by (simp add: b takeWhile_all)
  ultimately have "timing_group2 (32 # b) = Some b"
    using assms(2) by (simp add: timing_group2_def Let_def del: dropWhile.simps)
  moreover have "dropWhile is_space (32 # 45 # 45 # 62 # 32 # b) = 45 # 45 # 62 # 32 # b"
    using sp by simp
  ultimately have "timing_rest (32 # 45 # 45 # 62 # 32 # b) = Some b"
    by (simp add: timing_rest_def startswith_def Let_def del: dropWhile.simps)
  then have "timing_scan (c # r) ([32, 45, 45, 62, 32] @ b) = Some (c # r, b)"
    by simp
  then show ?thesis
    using timing_scan_skip[OF r, of "[c]" "[32, 45, 45, 62, 32] @ b"]
    by (simp add: match_timing_def a)
qed

lemma py_str_nat:
  "py_str (int i) = digits i" "py_str (int i) \<noteq> []"
  "\<forall>c\<in>set (py_str (int i)). 48 \<le> c \<and> c \<le> 57"
  using digits_value[of i 0] by (simp_all add: py_str_def)

lemma timing_line_chars:
  assumes "round_trip_cue c"
  shows "timing_line c \<noteq> []"
    and "\<forall>x\<in>set (timing_line c). x = 32 \<or> x = 45 \<or> x = 62 \<or> x = 44 \<or> (48 \<le> x \<and> x \<le> 58)"
    and "\<not> is_space (hd (timing_line c))" and "\<not> is_space (last (timing_line c))"
proof -
  have s: "0 \<le> start_time c" "start_time c < 360000000"
    and e: "0 \<le> end_time c" "end_time c < 360000000"
    using assms by (simp_all add: round_trip_cue_def)
  note fs = format_timestamp_chars[OF s] and fe = format_timestamp_chars[OF e]
  show "timing_line c \<noteq> []"
    by (simp add: timing_line_def)
  show "\<forall>x\<in>set (timing_line c). x = 32 \<or> x = 45 \<or> x = 62 \<or> x = 44 \<or> (48 \<le> x \<and> x \<le> 58)"
    using fs(2) fe(2) by (auto simp: timing_line_def)
  have "hd (timing_line c) = hd (format_timestamp (start_time c))"
    using fs(1) by (simp add: timing_line_def)
  then show "\<not> is_space (hd (timing_line c))"
    using fs tchar_facts(1) by (metis hd_in_set)
  have "last (timing_line c) = last (format_timestamp (end_time c))"
    using fe(1) by (simp add: timing_line_def)
  then show "\<not> is_space (last (timing_line c))"
    using fe tchar_facts(1) by (metis last_in_set)
qed

lemma timing_line_match:
  assumes "round_trip_cue c"
  shows "match_timing (strip (timing_line c)) =
           Some (format_timestamp (start_time c), format_timestamp (end_time c))"
proof -
  have s: "0 \<le> start_time c" "start_time c < 360000000"
    and e: "0 \<le> end_time c" "end_time c < 360000000"
    using assms by (simp_all add: round_trip_cue_def)
  have "strip (timing_line c) = timing_line c"
    using timing_line_chars[OF assms] by (intro strip_id)
  then show ?thesis
    using match_timing_line[OF format_timestamp_chars(1)[OF s] format_timestamp_chars(1)[OF e]
        format_timestamp_chars(2)[OF s] format_timestamp_chars(2)[OF e]]
    by (simp add: timing_line_def)
qed

lemma parse_format_timestamp:
  "0 \<le> ms \<Longrightarrow> ms < 360000000 \<Longrightarrow> parse_timestamp (format_timestamp ms) = Inr ms"
  using parse_format_timestamp_nat[of "nat ms"] by (simp add: nat_less_iff)

lemma srt_block_ends:
  assumes "round_trip_cue c"
  shows "srt_block i c \<noteq> []" "\<not> is_space (hd (srt_block i c))" "\<not> is_space (last (srt_block i c))"
    "13 \<notin> set (srt_block i c)"
proof -
  have t: "text c \<noteq> []" "strip (text c) = text c" "13 \<notin> set (text c)"
    using assms by (simp_all add: round_trip_cue_def)
  show "srt_block i c \<noteq> []"
    by (simp add: srt_block_def)
  have "hd (srt_block i c) = hd (py_str (int i))"
    using py_str_nat(2)[of i] by (simp add: srt_block_def)
  moreover have "48 \<le> hd (py_str (int i)) \<and> hd (py_str (int i)) \<le> 57"
    using py_str_nat(2,3)[of i] by (meson hd_in_set)
  ultimately show "\<not> is_space (hd (srt_block i c))"
    by (simp add: is_space_def)
  have "last (srt_block i c) = last (text c)"
    using t(1) by (simp add: srt_block_def)
  then show "\<not> is_space (last (srt_block i c))"
    using strip_idD(2)[OF t(2,1)] by simp
  have "13 \<notin> set (py_str (int i))"
    using py_str_nat(3)[of i] by fastforce
  moreover have "13 \<notin> set (timing_line c)"
    using timing_line_chars(2)[OF assms] by fastforce
  ultimately show "13 \<notin> set (srt_block i c)"
    using t(3) by (simp add: srt_block_def)
qed

lemma srt_block_lines:
  assumes "round_trip_cue c"
  shows "split 10 (srt_block i c) = py_str (int i) # timing_line c # split 10 (text c)"
proof -
  have "10 \<notin> set (py_str (int i))"
    using py_str_nat(3)[of i] by fastforce
  moreover have "10 \<notin> set (timing_line c)"
    using timing_line_chars(2)[OF assms] by fastforce
  ultimately show ?thesis
    using split_from_line[of 10 "py_str (int i)" "[]" "timing_line c @ 10 # text c"]
      split_from_line[of 10 "timing_line c" "[]" "text c"]
    by (simp add: split_def srt_block_def)
qed

lemma parse_block_srt_block:
  assumes "round_trip_cue c" and i: "str_digits_ok (int i)"
  shows "parse_block (srt_block i c) = Some (Inr (c\<lparr>index := int i, translated_text := None\<rparr>))"
proof -
  have s: "0 \<le> start_time c" "start_time c < 360000000"
    and e: "0 \<le> end_time c" "end_time c < 360000000"
    and t: "strip (text c) = text c"
    using assms by (simp_all add: round_trip_cue_def)
  note b = srt_block_ends[OF assms(1), of i]
  have st: "strip (srt_block i c) = srt_block i c"
    using b by (intro strip_id)
  let ?lines = "py_str (int i) # timing_line c # split 10 (text c)"
  have len: "\<not> length ?lines < 3"
    using split_not_Nil[of 10 "text c"] by (cases "split 10 (text c)") simp_all
  have tx: "strip (join [10] (drop 2 ?lines)) = text c"
    by (simp add: join_split t)
  have "parse_block (srt_block i c) =
      Some (Inr \<lparr>index = int i, start_time = start_time c, end_time = end_time c,
                 text = text c, translated_text = None\<rparr>)"
    unfolding parse_block_def st srt_block_lines[OF assms(1)] Let_def
    using b(1) len tx
    by (simp add: py_int_py_str[OF i] timing_line_match[OF assms(1)] parse_format_timestamp s e
        del: split_from.simps)
  then show ?thesis
    by (cases c) simp
qed

lemma blank_sep_len_not_lf: "c \<noteq> 10 \<Longrightarrow> blank_sep_len (c # r) = None"
  by (simp add: blank_sep_len_def)

lemma blank_sep_len_no_space: "r \<noteq> [] \<Longrightarrow> \<not> is_space (hd r) \<Longrightarrow> blank_sep_len (10 # r) = None"
  by (cases r) (simp_all add: blank_sep_len_def)

lemma has_blank_line_prefix: "10 \<notin> set a \<Longrightarrow> has_blank_line (a @ b) = has_blank_line b"
  by (induction a) (simp_all add: blank_sep_len_not_lf)

lemma has_blank_line_lf: "b \<noteq> [] \<Longrightarrow> \<not> is_space (hd b) \<Longrightarrow> has_blank_line (10 # b) = has_blank_line b"
  by (simp add: blank_sep_len_no_space)

lemma srt_block_no_blank:
  assumes "round_trip_cue c"
  shows "\<not> has_blank_line (srt_block i c)"
proof -
  have t: "text c \<noteq> []" "strip (text c) = text c" "\<not> has_blank_line (text c)"
    using assms by (simp_all add: round_trip_cue_def)
  have a: "10 \<notin> set (py_str (int i))"
    using py_str_nat(3)[of i] by fastforce
  have b: "10 \<notin> set (timing_line c)"
    using timing_line_chars(2)[OF assms] by fastforce
  note tl = timing_line_chars[OF assms]
  have "has_blank_line (srt_block i c) = has_blank_line (10 # timing_line c @ 10 # text c)"
    using has_blank_line_prefix[OF a, of "10 # timing_line c @ 10 # text c"]
    by (simp add: srt_block_def)
  also have "\<dots> = has_blank_line (timing_line c @ 10 # text c)"
    using tl(1,3) by (intro has_blank_line_lf) simp_all
  also have "\<dots> = has_blank_line (10 # text c)"
    by (rule has_blank_line_prefix[OF b])
  also have "\<dots> = has_blank_line (text c)"
    using t(1) strip_idD(1)[OF t(2,1)] by (intro has_blank_line_lf)
  finally show ?thesis
    using t(3) by simp
qed

lemma blank_sep_len_append:
  assumes "r \<noteq> []" "\<not> is_space (last r)"
  shows "blank_sep_len (c # r @ x) = blank_sep_len (c # r)"
proof -
  have "last r \<in> set r"
    using assms(1) by simp
  then have "takeWhile is_space (r @ x) = takeWhile is_space r"
    using assms(2) by (rule takeWhile_append1)
  then show ?thesis
    by (simp add: blank_sep_len_def)
qed

lemma re_split_from_inert:
  "\<not> has_blank_line b \<Longrightarrow> b \<noteq> [] \<Longrightarrow> \<not> is_space (last b) \<Longrightarrow>
   re_split_from cur (b @ x) = re_split_from (cur @ b) x"
proof (induction b arbitrary: cur)
  case Nil
  then show ?case
    by simp
next
  case (Cons c b)
  show ?case
  proof (cases "b = []")
    case True
    then have "c \<noteq> 10"
      using Cons.prems(3) by (auto simp: is_space_def)
    then show ?thesis
      using True by (subst re_split_from.simps) (simp add: blank_sep_len_not_lf)
  next
    case False
    then have l: "\<not> is_space (last b)"
      using Cons.prems(3) by simp
    have n: "blank_sep_len (c # b) = None" "\<not> has_blank_line b"
      using Cons.prems(1) by (simp_all split: if_splits)
    have "blank_sep_len (c # b @ x) = None"
      using blank_sep_len_append[OF False l] n(1) by simp
    then have "re_split_from cur ((c # b) @ x) = re_split_from (cur @ [c]) (b @ x)"
      by (subst re_split_from.simps) simp
    then show ?thesis
      using Cons.IH[OF n(2) False l, of "cur @ [c]"] by simp
  qed
qed

lemma re_split_from_Nil: "re_split_from cur [] = [cur]"
  by (subst re_split_from.simps) simp

lemma re_split_from_empty_line:
  assumes "x \<noteq> []" "\<not> is_space (hd x)"
  shows "re_split_from cur (10 # 10 # x) = cur # re_split_from [] x"
proof -
  have "takeWhile is_space (10 # x) = [10]"
    using assms by (cases x) (simp_all add: is_space_def)
  then have "blank_sep_len (10 # 10 # x) = Some 2"
    by (simp add: blank_sep_len_def)
  then show ?thesis
    by (subst re_split_from.simps) simp
qed

lemma srt_doc_ends:
  assumes "list_all round_trip_cue cs" "cs \<noteq> []"
  shows "srt_doc i cs \<noteq> []" "\<not> is_space (hd (srt_doc i cs))" "\<not> is_space (last (srt_doc i cs))"
    "13 \<notin> set (srt_doc i cs)"
  using assms
proof (induction i cs rule: srt_doc.induct)
  case (1 i)
  {
    case 1 then show ?case by simp
  next
    case 2 then show ?case by simp
  next
    case 3 then show ?case by simp
  next
    case 4 then show ?case by simp
  }
next
  case (2 i c)
  {
    case 1 then show ?case using srt_block_ends(1)[of c i] by simp
  next
    case 2 then show ?case using srt_block_ends(2)[of c i] by simp
  next
    case 3 then show ?case using srt_block_ends(3)[of c i] by simp
  next
    case 4 then show ?case using srt_block_ends(4)[of c i] by simp
  }
next
  case (3 i c c' cs)
  {
    case 1 then show ?case using srt_block_ends(1)[of c i] by simp
  next
    case 2 then show ?case using srt_block_ends(1,2)[of c i] by simp
  next
    case 3 then show ?case using "3.IH"(1,3) by simp
  next
    case 4 then show ?case using "3.IH"(4) srt_block_ends(4)[of c i] by simp
  }
qed

end
